theory Spec2Isabelle
  imports Main
begin

section \<open>Exceptions\<close>

text \<open>
  A Python call either returns a value or raises; a function that can raise returns
  \<open>exn + 'a\<close>, with \<open>Inl\<close> for the exception. \<^verbatim>\<open>sys.exit(n)\<close> raises \<^verbatim>\<open>SystemExit\<close>.
  \<^verbatim>\<open>socket.error\<close> is \<^verbatim>\<open>OSError\<close>.
\<close>

datatype exn = OSError | AssertionError | IndexError | RuntimeError | TclError | SystemExit int

section \<open>Week clock\<close>

text \<open>
  \<^verbatim>\<open>current_cw\<close> (calendarweek.py, lines 381-392) returns
  \<^verbatim>\<open>datetime.date.today().isocalendar().week\<close>. The date arithmetic it delegates to is the
  one of Python's \<^verbatim>\<open>datetime\<close> module (reference implementation, \<^verbatim>\<open>Lib/datetime.py\<close>),
  embedded here function by function. Python integers are unbounded (\<open>int\<close>), \<^verbatim>\<open>//\<close> and
  \<^verbatim>\<open>%\<close> round towards minus infinity as \<open>div\<close> and \<open>mod\<close> do, and a failed \<^verbatim>\<open>assert\<close>
  is the value \<open>None\<close>.
\<close>

record date =
  year :: int
  month :: int
  day :: int

definition MINYEAR :: int where
  "MINYEAR = 1"

definition MAXYEAR :: int where
  "MAXYEAR = 9999"

definition DAYS_IN_MONTH :: "int list" where
  "DAYS_IN_MONTH = [-1, 31, 28, 31, 30, 31, 30, 31, 31, 30, 31, 30, 31]"

text \<open>The module-level loop that fills \<^verbatim>\<open>_DAYS_BEFORE_MONTH\<close>: running sums, after the placeholder.\<close>

fun running_sums :: "int \<Rightarrow> int list \<Rightarrow> int list" where
  "running_sums dbm [] = []"
| "running_sums dbm (dim # rest) = dbm # running_sums (dbm + dim) rest"

definition DAYS_BEFORE_MONTH :: "int list" where
  "DAYS_BEFORE_MONTH = -1 # running_sums 0 (tl DAYS_IN_MONTH)"

definition is_leap :: "int \<Rightarrow> bool" where
  "is_leap y \<longleftrightarrow> y mod 4 = 0 \<and> (y mod 100 \<noteq> 0 \<or> y mod 400 = 0)"

definition days_before_year :: "int \<Rightarrow> int" where
  "days_before_year yr = (let y = yr - 1 in y * 365 + y div 4 - y div 100 + y div 400)"

definition days_in_month :: "int \<Rightarrow> int \<Rightarrow> int option" where
  "days_in_month y m =
     (if \<not> (1 \<le> m \<and> m \<le> 12) then None
      else if m = 2 \<and> is_leap y then Some 29
      else Some (DAYS_IN_MONTH ! nat m))"

definition days_before_month :: "int \<Rightarrow> int \<Rightarrow> int option" where
  "days_before_month y m =
     (if \<not> (1 \<le> m \<and> m \<le> 12) then None
      else Some (DAYS_BEFORE_MONTH ! nat m + (if m > 2 \<and> is_leap y then 1 else 0)))"

definition ymd2ord :: "int \<Rightarrow> int \<Rightarrow> int \<Rightarrow> int option" where
  "ymd2ord y m d =
     (if \<not> (1 \<le> m \<and> m \<le> 12) then None
      else case days_in_month y m of
             None \<Rightarrow> None
           | Some dim \<Rightarrow>
               if \<not> (1 \<le> d \<and> d \<le> dim) then None
               else (case days_before_month y m of
                       None \<Rightarrow> None
                     | Some dbm \<Rightarrow> Some (days_before_year y + dbm + d)))"

text \<open>\<^verbatim>\<open>_check_date_fields\<close>: the dates a \<^verbatim>\<open>date\<close> object can hold.\<close>

definition check_date_fields :: "date \<Rightarrow> bool" where
  "check_date_fields d \<longleftrightarrow>
     MINYEAR \<le> year d \<and> year d \<le> MAXYEAR \<and> 1 \<le> month d \<and> month d \<le> 12 \<and>
     (case days_in_month (year d) (month d) of
        None \<Rightarrow> False
      | Some dim \<Rightarrow> 1 \<le> day d \<and> day d \<le> dim)"

definition THURSDAY :: int where
  "THURSDAY = 3"

definition isoweek1monday :: "int \<Rightarrow> int option" where
  "isoweek1monday y =
     (case ymd2ord y 1 1 of
        None \<Rightarrow> None
      | Some firstday \<Rightarrow>
          let firstweekday = (firstday + 6) mod 7;
              week1monday = firstday - firstweekday
          in Some (if firstweekday > THURSDAY then week1monday + 7 else week1monday))"

text \<open>\<^verbatim>\<open>date.isocalendar\<close>: the triple (ISO year, week, weekday).\<close>

definition isocalendar :: "date \<Rightarrow> (int \<times> int \<times> int) option" where
  "isocalendar self =
     (case isoweek1monday (year self) of
        None \<Rightarrow> None
      | Some week1monday \<Rightarrow>
     (case ymd2ord (year self) (month self) (day self) of
        None \<Rightarrow> None
      | Some today \<Rightarrow>
          let week = (today - week1monday) div 7;
              wday = (today - week1monday) mod 7
          in if week < 0 then
               (case isoweek1monday (year self - 1) of
                  None \<Rightarrow> None
                | Some w1 \<Rightarrow>
                    Some (year self - 1, (today - w1) div 7 + 1, (today - w1) mod 7 + 1))
             else if week \<ge> 52 then
               (case isoweek1monday (year self + 1) of
                  None \<Rightarrow> None
                | Some w1 \<Rightarrow>
                    if today \<ge> w1 then Some (year self + 1, 0 + 1, wday + 1)
                    else Some (year self, week + 1, wday + 1))
             else Some (year self, week + 1, wday + 1)))"

text \<open>\<^verbatim>\<open>current_cw\<close>, as a function of the date that \<^verbatim>\<open>date.today()\<close> reads from the clock.\<close>

definition current_cw :: "date \<Rightarrow> int option" where
  "current_cw today = map_option (\<lambda>(iso_year, week, weekday). week) (isocalendar today)"

subsection \<open>ISO 8601 week numbering, as the specification words it\<close>

text \<open>
  Days are counted as proleptic Gregorian ordinals (1 January of year 1 is day 1, a
  Monday). Weeks start on Monday; week 1 of a year is the week that contains the year's
  first Thursday; a day belongs to the ISO year whose week 1 is the last one to start on
  or before it, and its week number counts the weeks from there.
\<close>

definition weekday_of :: "int \<Rightarrow> int" where
  "weekday_of n = (n + 6) mod 7"

definition new_years_day :: "int \<Rightarrow> int" where
  "new_years_day y = days_before_year y + 1"

definition day_number :: "date \<Rightarrow> int" where
  "day_number d =
     days_before_year (year d)
     + (\<Sum>m \<leftarrow> [1 ..< nat (month d)]. if m = 2 \<and> is_leap (year d) then 29 else DAYS_IN_MONTH ! m)
     + day d"

definition is_first_thursday :: "int \<Rightarrow> int \<Rightarrow> bool" where
  "is_first_thursday y t \<longleftrightarrow>
     weekday_of t = 3 \<and> new_years_day y \<le> t \<and> t < new_years_day y + 7"

definition first_thursday :: "int \<Rightarrow> int" where
  "first_thursday y = new_years_day y + (3 - weekday_of (new_years_day y)) mod 7"

definition week1_start :: "int \<Rightarrow> int" where
  "week1_start y = first_thursday y - 3"

definition iso8601_year :: "date \<Rightarrow> int" where
  "iso8601_year d =
     (if day_number d < week1_start (year d) then year d - 1
      else if week1_start (year d + 1) \<le> day_number d then year d + 1
      else year d)"

definition iso8601_week :: "date \<Rightarrow> int" where
  "iso8601_week d = (day_number d - week1_start (iso8601_year d)) div 7 + 1"

section \<open>Startup registration\<close>

text \<open>
  The autostart functions read the platform name, the registry (Windows) or a file in the
  user's home directory (Linux, macOS), and the location of the running program. The record
  \<open>host\<close> holds what they read. A registry key that cannot be opened is \<open>None\<close>; a file
  is absent, readable with its text, or present and unreadable (then \<^verbatim>\<open>open\<close> raises).
  \<^verbatim>\<open>os.path.normpath\<close> belongs to the platform's path module and is a field of the host.
\<close>

datatype fs_entry = Readable string | Unreadable

record host =
  SYSTEM :: string
  run_key :: "(string \<rightharpoonup> string) option"
  files :: "string \<rightharpoonup> fs_entry"
  home :: string
  frozen :: bool
  sys_executable :: string
  module_file :: string
  normpath :: "string \<Rightarrow> string"

definition APP_NAME :: string where
  "APP_NAME = ''CalendarWeek''"

definition get_exe_path :: "host \<Rightarrow> string" where
  "get_exe_path h = (if frozen h then sys_executable h else module_file h)"

definition get_startup_path_linux :: "host \<Rightarrow> string" where
  "get_startup_path_linux h =
     (home h @ ''/.config/autostart'') @ ''/'' @ (APP_NAME @ ''.desktop'')"

definition get_startup_path_macos :: "host \<Rightarrow> string" where
  "get_startup_path_macos h =
     (home h @ ''/Library/LaunchAgents'') @ ''/'' @ (''com.'' @ APP_NAME @ ''.plist'')"

definition path_exists :: "host \<Rightarrow> string \<Rightarrow> bool" where
  "path_exists h p \<longleftrightarrow> files h p \<noteq> None"

definition is_in_startup :: "host \<Rightarrow> bool" where
  "is_in_startup h =
     (if SYSTEM h = ''Windows'' then
        (case run_key h of
           None \<Rightarrow> False
         | Some vals \<Rightarrow> (case vals APP_NAME of Some v \<Rightarrow> True | None \<Rightarrow> False))
      else if SYSTEM h = ''Linux'' then path_exists h (get_startup_path_linux h)
      else if SYSTEM h = ''Darwin'' then path_exists h (get_startup_path_macos h)
      else False)"

text \<open>Iterating over a text file yields its lines, each with its newline.\<close>

fun file_lines :: "string \<Rightarrow> string list" where
  "file_lines [] = []"
| "file_lines (c # cs) =
     (if c = CHR 0x0A then [c] # file_lines cs
      else (case file_lines cs of
              [] \<Rightarrow> [[c]]
            | l # ls \<Rightarrow> (c # l) # ls))"

definition startswith :: "string \<Rightarrow> string \<Rightarrow> bool" where
  "startswith s p \<longleftrightarrow> take (length p) s = p"

text \<open>\<^verbatim>\<open>str.isspace\<close> on the code points below 256, and \<^verbatim>\<open>str.strip()\<close>.\<close>

definition isspace :: "char \<Rightarrow> bool" where
  "isspace c \<longleftrightarrow> c \<in> {CHR 0x09, CHR 0x0A, CHR 0x0B, CHR 0x0C, CHR 0x0D, CHR 0x1C, CHR 0x1D,
                      CHR 0x1E, CHR 0x1F, CHR 0x20, CHR 0x85, CHR 0xA0}"

definition strip :: "string \<Rightarrow> string" where
  "strip s = rev (dropWhile isspace (rev (dropWhile isspace s)))"

text \<open>\<^verbatim>\<open>line.split("=", 1)[1]\<close>: what follows the first \<^verbatim>\<open>=\<close>; \<open>None\<close> is the IndexError.\<close>

definition after_first_eq :: "string \<Rightarrow> string option" where
  "after_first_eq line =
     (case dropWhile (\<lambda>c. c \<noteq> CHR ''='') line of [] \<Rightarrow> None | c # rest \<Rightarrow> Some rest)"

text \<open>The loop over the lines of the .desktop file (lines 183-185).\<close>

fun find_exec :: "string list \<Rightarrow> exn + string option" where
  "find_exec [] = Inr None"
| "find_exec (line # rest) =
     (if startswith line ''Exec='' then
        (case after_first_eq line of
           None \<Rightarrow> Inl IndexError
         | Some v \<Rightarrow> Inr (Some (strip v)))
      else find_exec rest)"

text \<open>
  \<^verbatim>\<open>re.search(r'<string>(/[^<]+)</string>', content)\<close>, group 1 of the leftmost match. At a
  position, \<^verbatim>\<open>[^<]+\<close> takes the longest run without \<^verbatim>\<open><\<close>; a shorter run is followed by
  a character of the run, never by the \<^verbatim>\<open><\<close> that must come next, so backtracking finds
  nothing more.
\<close>

definition match_string_path_here :: "string \<Rightarrow> string option" where
  "match_string_path_here s =
     (if startswith s ''<string>/'' then
        (let body = drop (length ''<string>/'') s;
             run = takeWhile (\<lambda>c. c \<noteq> CHR ''<'') body;
             rest = dropWhile (\<lambda>c. c \<noteq> CHR ''<'') body
         in if run \<noteq> [] \<and> startswith rest ''</string>'' then Some (CHR ''/'' # run) else None)
      else None)"

fun search_string_path :: "string \<Rightarrow> string option" where
  "search_string_path [] = None"
| "search_string_path (c # cs) =
     (case match_string_path_here (c # cs) of
        Some g \<Rightarrow> Some g
      | None \<Rightarrow> search_string_path cs)"

definition get_registered_path :: "host \<Rightarrow> exn + string option" where
  "get_registered_path h =
     (if SYSTEM h = ''Windows'' then
        (case run_key h of
           None \<Rightarrow> Inr None
         | Some vals \<Rightarrow> (case vals APP_NAME of Some v \<Rightarrow> Inr (Some v) | None \<Rightarrow> Inr None))
      else if SYSTEM h = ''Linux'' then
        (case files h (get_startup_path_linux h) of
           None \<Rightarrow> Inr None
         | Some Unreadable \<Rightarrow> Inl OSError
         | Some (Readable content) \<Rightarrow> find_exec (file_lines content))
      else if SYSTEM h = ''Darwin'' then
        (case files h (get_startup_path_macos h) of
           None \<Rightarrow> Inr None
         | Some Unreadable \<Rightarrow> Inl OSError
         | Some (Readable content) \<Rightarrow> Inr (search_string_path content))
      else Inr None)"

definition moved_message :: "string \<Rightarrow> string \<Rightarrow> string" where
  "moved_message registered current =
     ''The application has been moved.'' @ [CHR 0x0A, CHR 0x0A]
     @ ''Registered path:'' @ [CHR 0x0A] @ registered @ [CHR 0x0A, CHR 0x0A]
     @ ''Current path:'' @ [CHR 0x0A] @ current"

definition check_startup_path :: "host \<Rightarrow> exn + (bool \<times> string option)" where
  "check_startup_path h =
     (if \<not> is_in_startup h then Inr (True, None)
      else (case get_registered_path h of
              Inl e \<Rightarrow> Inl e
            | Inr registered \<Rightarrow>
                let current = get_exe_path h
                in (case registered of
                      None \<Rightarrow> Inr (True, None)
                    | Some r \<Rightarrow>
                        if r \<noteq> [] \<and> normpath h r \<noteq> normpath h current
                        then Inr (False, Some (moved_message r current))
                        else Inr (True, None))))"

text \<open>A Linux host whose autostart file holds the given text.\<close>

definition linux_host :: "string \<Rightarrow> host" where
  "linux_host content =
     \<lparr>SYSTEM = ''Linux'', run_key = None,
      files = [''/home/u/.config/autostart/CalendarWeek.desktop'' \<mapsto> Readable content],
      home = ''/home/u'', frozen = True, sys_executable = ''/opt/cw/CalendarWeek'',
      module_file = ''/opt/cw/calendarweek.py'', normpath = (\<lambda>p. p)\<rparr>"

section \<open>Tray icon and hourly refresh\<close>

text \<open>
  \<^verbatim>\<open>create_icon\<close> draws the week number, formatted \<^verbatim>\<open>f"{cw:02d}"\<close>, on a 64 by 64 white
  square with a black border of width 2. The image is modelled by what is drawn; the font
  and the pixel position of the text depend on the fonts installed and are left out.
\<close>

record image =
  img_size :: nat
  img_text :: string
  img_border :: nat

fun decimal :: "nat \<Rightarrow> string" where
  "decimal n =
     (if n < 10 then [''0123456789'' ! n]
      else decimal (n div 10) @ [''0123456789'' ! (n mod 10)])"

declare decimal.simps [simp del]

text \<open>Python's format \<^verbatim>\<open>02d\<close>: the sign, then zeros up to width 2, then the digits.\<close>

definition format_02d :: "int \<Rightarrow> string" where
  "format_02d n =
     (let sign = (if n < 0 then ''-'' else []);
          digits = decimal (nat \<bar>n\<bar>)
      in sign @ replicate (2 - (length sign + length digits)) CHR ''0'' @ digits)"

definition create_icon :: "int \<Rightarrow> image" where
  "create_icon cw = \<lparr>img_size = 64, img_text = format_02d cw, img_border = 2\<rparr>"

text \<open>
  The attributes of the pystray icon that the refresh thread assigns. An assignment makes
  the tray redraw, so the model also returns the assignments made, in order.
\<close>

record pystray_icon =
  icon :: image
  title :: string

datatype icon_write = Set_icon image | Set_title string

text \<open>
  One pass of the loop body of \<^verbatim>\<open>refresh_loop\<close> (lines 412-417), after the sleep; \<open>today\<close>
  is the date that \<^verbatim>\<open>current_cw()\<close> reads.
\<close>

definition refresh_pass ::
  "date \<Rightarrow> pystray_icon \<times> int \<Rightarrow> exn + (pystray_icon \<times> int \<times> icon_write list)" where
  "refresh_pass today st =
     (case st of (ic, last_cw) \<Rightarrow>
        (case current_cw today of
           None \<Rightarrow> Inl AssertionError
         | Some new_cw \<Rightarrow>
             if new_cw \<noteq> last_cw then
               Inr (ic\<lparr>icon := create_icon new_cw, title := ''Week '' @ format_02d new_cw\<rparr>,
                    new_cw,
                    [Set_icon (create_icon new_cw), Set_title (''Week '' @ format_02d new_cw)])
             else Inr (ic, last_cw, [])))"

text \<open>
  The \<^verbatim>\<open>while icon.visible\<close> loop. Each element of the list is one evaluation of the loop
  condition: the value of \<^verbatim>\<open>icon.visible\<close> then (set by the tray's own thread), and the date
  read after the sleep. When the list ends the thread is asleep.
\<close>

fun refresh_loop ::
  "pystray_icon \<Rightarrow> int \<Rightarrow> (bool \<times> date) list
     \<Rightarrow> exn + (pystray_icon \<times> int \<times> icon_write list)" where
  "refresh_loop ic last_cw [] = Inr (ic, last_cw, [])"
| "refresh_loop ic last_cw ((visible, today) # rest) =
     (if \<not> visible then Inr (ic, last_cw, [])
      else (case refresh_pass today (ic, last_cw) of
              Inl e \<Rightarrow> Inl e
            | Inr (ic', last_cw', ws) \<Rightarrow>
                (case refresh_loop ic' last_cw' rest of
                   Inl e \<Rightarrow> Inl e
                 | Inr (ic'', last_cw'', ws') \<Rightarrow> Inr (ic'', last_cw'', ws @ ws'))))"

definition start_auto_refresh ::
  "pystray_icon \<Rightarrow> date \<Rightarrow> (bool \<times> date) list
     \<Rightarrow> exn + (pystray_icon \<times> int \<times> icon_write list)" where
  "start_auto_refresh ic started env =
     (case current_cw started of
        None \<Rightarrow> Inl AssertionError
      | Some last_cw \<Rightarrow> refresh_loop ic last_cw env)"

text \<open>The icon displays week \<open>w\<close>: image and title are the ones made for \<open>w\<close>.\<close>

definition displays :: "pystray_icon \<Rightarrow> int \<Rightarrow> bool" where
  "displays ic w \<longleftrightarrow> icon ic = create_icon w \<and> title ic = ''Week '' @ format_02d w"

section \<open>Sockets\<close>

text \<open>
  The part of the operating system that the single-instance mechanism uses: TCP sockets on
  the loopback interface. A socket is known by a number; \<open>sockets\<close> holds the open ones.
  \<open>port_table\<close> gives the socket bound to an address; \<open>accept_queue\<close> of a listening
  socket holds the server-side ends of the connections made and not yet accepted, oldest
  first; \<open>inbox\<close> holds the bytes received and not yet read; \<open>eof\<close> says that the
  peer has closed.

  A socket is closed by \<^verbatim>\<open>close()\<close> only: what the interpreter does with a socket object
  that has lost its last reference is not modelled. The length limit of the accept queue
  (\<^verbatim>\<open>listen(1)\<close>) is recorded and not enforced.

  Every call may also fail for reasons outside the model (no descriptors left, an
  interrupted call, a reset): calls are counted by \<open>clock\<close>, and a call made when the
  clock is in \<open>faults\<close> raises.
\<close>

type_synonym sock = nat

type_synonym address = "string \<times> nat"

record socket =
  bound_to :: "address option"
  listening :: bool
  backlog :: nat
  accept_queue :: "sock list"
  peer :: "sock option"
  inbox :: string
  eof :: bool

record os_state =
  sockets :: "sock \<rightharpoonup> socket"
  port_table :: "address \<rightharpoonup> sock"
  next_sock :: sock
  clock :: nat
  faults :: "nat set"

definition new_socket :: socket where
  "new_socket = \<lparr>bound_to = None, listening = False, backlog = 0, accept_queue = [],
                  peer = None, inbox = [], eof = False\<rparr>"

definition failing :: "os_state \<Rightarrow> bool" where
  "failing os \<longleftrightarrow> clock os \<in> faults os"

definition tick :: "os_state \<Rightarrow> os_state" where
  "tick os = os\<lparr>clock := Suc (clock os)\<rparr>"

text \<open>\<^verbatim>\<open>socket.socket(AF_INET, SOCK_STREAM)\<close>\<close>

definition sock_socket :: "os_state \<Rightarrow> (exn + sock) \<times> os_state" where
  "sock_socket os =
     (if failing os then (Inl OSError, tick os)
      else (Inr (next_sock os),
            tick (os\<lparr>sockets := (sockets os)(next_sock os \<mapsto> new_socket),
                      next_sock := Suc (next_sock os)\<rparr>)))"

text \<open>\<^verbatim>\<open>s.bind(addr)\<close>: fails when the address is in use.\<close>

definition sock_bind :: "sock \<Rightarrow> address \<Rightarrow> os_state \<Rightarrow> (exn + unit) \<times> os_state" where
  "sock_bind s addr os =
     (if failing os then (Inl OSError, tick os)
      else (case sockets os s of
              None \<Rightarrow> (Inl OSError, tick os)
            | Some i \<Rightarrow>
                if bound_to i \<noteq> None \<or> port_table os addr \<noteq> None then (Inl OSError, tick os)
                else (Inr (),
                      tick (os\<lparr>sockets := (sockets os)(s \<mapsto> i\<lparr>bound_to := Some addr\<rparr>),
                                port_table := (port_table os)(addr \<mapsto> s)\<rparr>))))"

text \<open>\<^verbatim>\<open>s.listen(n)\<close>\<close>

definition sock_listen :: "sock \<Rightarrow> nat \<Rightarrow> os_state \<Rightarrow> (exn + unit) \<times> os_state" where
  "sock_listen s n os =
     (if failing os then (Inl OSError, tick os)
      else (case sockets os s of
              None \<Rightarrow> (Inl OSError, tick os)
            | Some i \<Rightarrow>
                if peer i \<noteq> None then (Inl OSError, tick os)
                else (Inr (),
                      tick (os\<lparr>sockets :=
                                  (sockets os)(s \<mapsto> i\<lparr>listening := True, backlog := n\<rparr>)\<rparr>))))"

text \<open>The end \<open>s\<close> of a connection goes away: its peer, if still open, sees the end of the stream.\<close>

definition hang_up :: "sock \<Rightarrow> os_state \<Rightarrow> os_state" where
  "hang_up s os =
     (case sockets os s of
        None \<Rightarrow> os
      | Some i \<Rightarrow>
          let rest = (sockets os)(s := None)
          in os\<lparr>sockets :=
                  (case peer i of
                     None \<Rightarrow> rest
                   | Some p \<Rightarrow>
                       (case rest p of
                          None \<Rightarrow> rest
                        | Some pi \<Rightarrow> rest(p \<mapsto> pi\<lparr>eof := True\<rparr>)))\<rparr>)"

text \<open>
  \<^verbatim>\<open>s.close()\<close>. Closing a closed socket does nothing. Otherwise the descriptor is given
  back in any case: the connections still queued on a listening socket are dropped, the
  address is free again, and only then may the call report an error.
\<close>

definition sock_close :: "sock \<Rightarrow> os_state \<Rightarrow> (exn + unit) \<times> os_state" where
  "sock_close s os =
     (case sockets os s of
        None \<Rightarrow> (Inr (), os)
      | Some i \<Rightarrow>
          let os1 = hang_up s (foldr hang_up (accept_queue i) os);
              os2 = (case bound_to i of
                       None \<Rightarrow> os1
                     | Some a \<Rightarrow>
                         if port_table os1 a = Some s
                         then os1\<lparr>port_table := (port_table os1)(a := None)\<rparr>
                         else os1)
          in (if failing os then Inl OSError else Inr (), tick os2))"

text \<open>
  \<^verbatim>\<open>c.connect(addr)\<close>: refused unless a listening socket is bound to the address; otherwise
  the server-side end of the new connection joins the accept queue.
\<close>

definition sock_connect :: "sock \<Rightarrow> address \<Rightarrow> os_state \<Rightarrow> (exn + unit) \<times> os_state" where
  "sock_connect c addr os =
     (if failing os then (Inl OSError, tick os)
      else (case sockets os c of
              None \<Rightarrow> (Inl OSError, tick os)
            | Some ci \<Rightarrow>
                if listening ci \<or> peer ci \<noteq> None then (Inl OSError, tick os)
                else (case port_table os addr of
                        None \<Rightarrow> (Inl OSError, tick os)
                      | Some l \<Rightarrow>
                          (case sockets os l of
                             None \<Rightarrow> (Inl OSError, tick os)
                           | Some li \<Rightarrow>
                               if \<not> listening li \<or> l = c then (Inl OSError, tick os)
                               else
                                 let e = next_sock os
                                 in (Inr (),
                                     tick (os\<lparr>sockets := (sockets os)
                                                 (c \<mapsto> ci\<lparr>peer := Some e\<rparr>,
                                                  l \<mapsto> li\<lparr>accept_queue := accept_queue li @ [e]\<rparr>,
                                                  e \<mapsto> new_socket\<lparr>peer := Some c\<rparr>),
                                               next_sock := Suc e\<rparr>))))))"

text \<open>\<^verbatim>\<open>c.send(data)\<close>: the bytes reach the inbox of the peer; returns their number.\<close>

definition sock_send :: "sock \<Rightarrow> string \<Rightarrow> os_state \<Rightarrow> (exn + nat) \<times> os_state" where
  "sock_send c data os =
     (if failing os then (Inl OSError, tick os)
      else (case sockets os c of
              None \<Rightarrow> (Inl OSError, tick os)
            | Some ci \<Rightarrow>
                (case peer ci of
                   None \<Rightarrow> (Inl OSError, tick os)
                 | Some e \<Rightarrow>
                     (case sockets os e of
                        None \<Rightarrow> (Inl OSError, tick os)
                      | Some ei \<Rightarrow>
                          (Inr (length data),
                           tick (os\<lparr>sockets :=
                                       (sockets os)(e \<mapsto> ei\<lparr>inbox := inbox ei @ data\<rparr>)\<rparr>))))))"

text \<open>
  The two calls that can wait. \<open>None\<close> means that the call does not return in this state
  (the caller stays blocked and the state is as before).

  \<^verbatim>\<open>l.accept()\<close> takes the oldest queued connection.
\<close>

definition sock_accept :: "sock \<Rightarrow> os_state \<Rightarrow> ((exn + sock) \<times> os_state) option" where
  "sock_accept l os =
     (if failing os then Some (Inl OSError, tick os)
      else (case sockets os l of
              None \<Rightarrow> Some (Inl OSError, tick os)
            | Some li \<Rightarrow>
                if \<not> listening li then Some (Inl OSError, tick os)
                else (case accept_queue li of
                        [] \<Rightarrow> None
                      | e # q \<Rightarrow>
                          Some (Inr e,
                                tick (os\<lparr>sockets := (sockets os)(l \<mapsto> li\<lparr>accept_queue := q\<rparr>)\<rparr>)))))"

text \<open>
  \<^verbatim>\<open>c.recv(n)\<close> returns at most \<open>n\<close> of the bytes received; the empty string once the
  peer has closed and everything was read.
\<close>

definition sock_recv :: "sock \<Rightarrow> nat \<Rightarrow> os_state \<Rightarrow> ((exn + string) \<times> os_state) option" where
  "sock_recv c n os =
     (if failing os then Some (Inl OSError, tick os)
      else (case sockets os c of
              None \<Rightarrow> Some (Inl OSError, tick os)
            | Some ci \<Rightarrow>
                if inbox ci \<noteq> [] then
                  Some (Inr (take n (inbox ci)),
                        tick (os\<lparr>sockets := (sockets os)(c \<mapsto> ci\<lparr>inbox := drop n (inbox ci)\<rparr>)\<rparr>))
                else if eof ci then Some (Inr [], tick os)
                else if peer ci = None then Some (Inl OSError, tick os)
                else None))"

text \<open>\<^verbatim>\<open>threading.Thread(target=\<dots>, daemon=True).start()\<close> raises when no thread can be started.\<close>

datatype thread_target = Target_show_calendar | Target_show_path_warning
  | Target_listen_for_new_instances
  | Target_refresh_loop

definition thread_start :: "os_state \<Rightarrow> (exn + unit) \<times> os_state" where
  "thread_start os = (if failing os then (Inl RuntimeError, tick os) else (Inr (), tick os))"

section \<open>Single instance mechanism\<close>

text \<open>
  The module global \<^verbatim>\<open>LOCK_SOCKET\<close> belongs to one process: each process has its own
  \<open>globals\<close>, and all processes of a session share the operating system state. At import
  \<^verbatim>\<open>LOCK_SOCKET\<close> is \<^verbatim>\<open>None\<close> (line 60).
\<close>

record globals =
  LOCK_SOCKET :: "sock option"

definition initial_globals :: globals where
  "initial_globals = \<lparr>LOCK_SOCKET = None\<rparr>"

definition LOCK_PORT :: nat where
  "LOCK_PORT = 47200"

definition lock_address :: address where
  "lock_address = (''127.0.0.1'', LOCK_PORT)"

text \<open>
  \<^verbatim>\<open>acquire_single_instance_lock\<close> (lines 858-883). The socket is created outside the
  \<^verbatim>\<open>try\<close>; \<^verbatim>\<open>bind\<close> and \<^verbatim>\<open>listen\<close> are inside it, and the handler for
  \<^verbatim>\<open>socket.error\<close> closes the socket, clears the global and returns \<^verbatim>\<open>False\<close>.
\<close>

definition acquire_failed ::
  "sock \<Rightarrow> globals \<Rightarrow> os_state \<Rightarrow> (exn + bool) \<times> globals \<times> os_state" where
  "acquire_failed s g os =
     (case sock_close s os of
        (Inl e, os') \<Rightarrow> (Inl e, g, os')
      | (Inr u, os') \<Rightarrow> (Inr False, g\<lparr>LOCK_SOCKET := None\<rparr>, os'))"

definition acquire_single_instance_lock ::
  "globals \<Rightarrow> os_state \<Rightarrow> (exn + bool) \<times> globals \<times> os_state" where
  "acquire_single_instance_lock g os =
     (case sock_socket os of
        (Inl e, os1) \<Rightarrow> (Inl e, g, os1)
      | (Inr s, os1) \<Rightarrow>
          let g1 = g\<lparr>LOCK_SOCKET := Some s\<rparr>
          in (case sock_bind s lock_address os1 of
                (Inl e, os2) \<Rightarrow>
                  if e = OSError then acquire_failed s g1 os2 else (Inl e, g1, os2)
              | (Inr u, os2) \<Rightarrow>
                  (case sock_listen s 1 os2 of
                     (Inl e, os3) \<Rightarrow>
                       if e = OSError then acquire_failed s g1 os3 else (Inl e, g1, os3)
                   | (Inr u, os3) \<Rightarrow> (Inr True, g1, os3))))"

text \<open>
  \<^verbatim>\<open>release_single_instance_lock\<close> (lines 884-896): whatever \<^verbatim>\<open>close\<close> raises is
  swallowed (\<^verbatim>\<open>except: pass\<close>).
\<close>

definition release_single_instance_lock ::
  "globals \<Rightarrow> os_state \<Rightarrow> (exn + unit) \<times> globals \<times> os_state" where
  "release_single_instance_lock g os =
     (case LOCK_SOCKET g of
        None \<Rightarrow> (Inr (), g, os)
      | Some s \<Rightarrow>
          (case sock_close s os of
             (Inl e, os') \<Rightarrow> (Inr (), g\<lparr>LOCK_SOCKET := None\<rparr>, os')
           | (Inr u, os') \<Rightarrow> (Inr (), g\<lparr>LOCK_SOCKET := None\<rparr>, os')))"

text \<open>
  \<^verbatim>\<open>notify_existing_instance\<close> (lines 897-908). \<open>notify_attempt\<close> is the suite of the
  \<^verbatim>\<open>try\<close>, which stops at the first call that raises; the bare \<^verbatim>\<open>except: pass\<close> around
  it swallows the exception.
\<close>

definition SHOW :: string where
  "SHOW = ''SHOW''"

definition notify_attempt :: "os_state \<Rightarrow> (exn + unit) \<times> os_state" where
  "notify_attempt os =
     (case sock_socket os of
        (Inl e, os1) \<Rightarrow> (Inl e, os1)
      | (Inr client, os1) \<Rightarrow>
          (case sock_connect client lock_address os1 of
             (Inl e, os2) \<Rightarrow> (Inl e, os2)
           | (Inr u, os2) \<Rightarrow>
               (case sock_send client SHOW os2 of
                  (Inl e, os3) \<Rightarrow> (Inl e, os3)
                | (Inr n, os3) \<Rightarrow> sock_close client os3)))"

definition notify_existing_instance :: "os_state \<Rightarrow> (exn + unit) \<times> os_state" where
  "notify_existing_instance os =
     (case notify_attempt os of
        (Inl e, os') \<Rightarrow> (Inr (), os')
      | (Inr u, os') \<Rightarrow> (Inr (), os'))"

text \<open>
  \<^verbatim>\<open>listen_for_new_instances\<close> (lines 973-988), the thread of the active instance.
  \<open>listener_pc\<close> says where the thread stands: at the top of the loop (before or in
  \<^verbatim>\<open>accept\<close>), in \<^verbatim>\<open>recv\<close> on an accepted connection, or past the loop.

  \<open>listener_try\<close> is the suite of the \<^verbatim>\<open>try\<close> for one turn of the loop. It waits, leaves
  the loop by \<^verbatim>\<open>break\<close>, raises, or completes, having started the threads listed.
\<close>

datatype listener_pc = At_accept | At_recv sock | Stopped

datatype try_result =
    Waiting listener_pc os_state
  | Break os_state
  | Raised exn os_state
  | Completed "thread_target list" os_state

definition listener_dispatch :: "sock \<Rightarrow> os_state \<Rightarrow> try_result" where
  "listener_dispatch conn os =
     (case sock_recv conn 1024 os of
        None \<Rightarrow> Waiting (At_recv conn) os
      | Some (Inl e, os1) \<Rightarrow> Raised e os1
      | Some (Inr data, os1) \<Rightarrow>
          (case sock_close conn os1 of
             (Inl e, os2) \<Rightarrow> Raised e os2
           | (Inr u, os2) \<Rightarrow>
               if data = SHOW then
                 (case thread_start os2 of
                    (Inl e, os3) \<Rightarrow> Raised e os3
                  | (Inr u, os3) \<Rightarrow> Completed [Target_show_calendar] os3)
               else Completed [] os2))"

definition listener_try :: "globals \<Rightarrow> listener_pc \<Rightarrow> os_state \<Rightarrow> try_result" where
  "listener_try g pc os =
     (case pc of
        Stopped \<Rightarrow> Break os
      | At_recv conn \<Rightarrow> listener_dispatch conn os
      | At_accept \<Rightarrow>
          (case LOCK_SOCKET g of
             None \<Rightarrow> Break os
           | Some l \<Rightarrow>
               (case sock_accept l os of
                  None \<Rightarrow> Waiting At_accept os
                | Some (Inl e, os1) \<Rightarrow> Raised e os1
                | Some (Inr conn, os1) \<Rightarrow> listener_dispatch conn os1)))"

text \<open>The connections waiting on the lock socket: every turn of the loop takes one.\<close>

definition pending :: "globals \<Rightarrow> os_state \<Rightarrow> nat" where
  "pending g os =
     (case LOCK_SOCKET g of
        None \<Rightarrow> 0
      | Some l \<Rightarrow> (case sockets os l of None \<Rightarrow> 0 | Some li \<Rightarrow> length (accept_queue li)))"

lemma pending_tick: "pending g (tick os) = pending g os"
  by (simp add: pending_def tick_def split: option.splits)

lemma pending_hang_up: "pending g (hang_up s os) \<le> pending g os"
  by (simp add: pending_def hang_up_def Let_def split: option.splits)

lemma pending_hang_up_all: "pending g (foldr hang_up ss os) \<le> pending g os"
proof (induction ss)
  case Nil
  show ?case by simp
next
  case (Cons s ss)
  have "pending g (hang_up s (foldr hang_up ss os)) \<le> pending g (foldr hang_up ss os)"
    by (rule pending_hang_up)
  with Cons show ?case by simp
qed

lemma pending_unbind: "pending g (os\<lparr>port_table := t\<rparr>) = pending g os"
  by (simp add: pending_def split: option.splits)

lemma pending_close: "pending g (snd (sock_close s os)) \<le> pending g os"
proof (cases "sockets os s")
  case None
  then show ?thesis by (simp add: sock_close_def)
next
  case (Some i)
  have "pending g (hang_up s (foldr hang_up (accept_queue i) os)) \<le> pending g os"
    using pending_hang_up[of g s "foldr hang_up (accept_queue i) os"]
      pending_hang_up_all[of g "accept_queue i" os]
    by simp
  then show ?thesis
    using Some
    by (simp add: sock_close_def Let_def pending_tick pending_unbind split: option.splits)
qed

lemma pending_recv:
  assumes "sock_recv c n os = Some (r, os')"
  shows "pending g os' \<le> pending g os"
  using assms
  by (auto simp add: sock_recv_def pending_def tick_def split: if_splits option.splits)

lemma pending_thread_start: "pending g (snd (thread_start os)) = pending g os"
  by (simp add: thread_start_def pending_tick)

lemma pending_accept:
  assumes "sock_accept l os = Some (Inr conn, os')" "LOCK_SOCKET g = Some l"
  shows "pending g os' < pending g os"
  using assms
  by (auto simp add: sock_accept_def pending_def tick_def split: if_splits option.splits list.splits)

lemma pending_dispatch:
  assumes "listener_dispatch conn os = Completed ts os'"
  shows "pending g os' \<le> pending g os"
proof -
  from assms obtain data os1 where r: "sock_recv conn 1024 os = Some (Inr data, os1)"
    by (auto simp add: listener_dispatch_def split: option.splits sum.splits)
  from assms r obtain os2 where c: "sock_close conn os1 = (Inr (), os2)"
    by (auto simp add: listener_dispatch_def split: sum.splits prod.splits)
  have "os' = os2 \<or> os' = snd (thread_start os2)"
    using assms r c
    by (auto simp add: listener_dispatch_def split: if_splits sum.splits prod.splits)
  moreover have "pending g os2 \<le> pending g os1"
    using pending_close[of g conn os1] c by simp
  moreover have "pending g os1 \<le> pending g os"
    using pending_recv[OF r] .
  ultimately show ?thesis
    using pending_thread_start[of g os2] by auto
qed

lemma pending_try:
  assumes "listener_try g pc os = Completed ts os'"
  shows "2 * pending g os' < 2 * pending g os + (case pc of At_recv c \<Rightarrow> 1 | _ \<Rightarrow> 0)"
proof (cases pc)
  case At_accept
  with assms obtain l conn os1 where l: "LOCK_SOCKET g = Some l"
    and a: "sock_accept l os = Some (Inr conn, os1)"
    and d: "listener_dispatch conn os1 = Completed ts os'"
    by (auto simp add: listener_try_def split: option.splits sum.splits)
  show ?thesis
    using pending_accept[OF a l] pending_dispatch[OF d, of g] At_accept by simp
next
  case (At_recv conn)
  with assms have "listener_dispatch conn os = Completed ts os'"
    by (simp add: listener_try_def)
  from pending_dispatch[OF this, of g] show ?thesis
    using At_recv by simp
next
  case Stopped
  with assms show ?thesis
    by (simp add: listener_try_def)
qed

text \<open>
  The \<^verbatim>\<open>while True\<close> loop, run from where the thread stands until it waits or leaves the
  loop. A \<^verbatim>\<open>break\<close> and the bare \<^verbatim>\<open>except: break\<close> both end it. The result is where the
  thread stands then, the threads it has started, and the state.
\<close>

function listen_for_new_instances ::
  "globals \<Rightarrow> listener_pc \<Rightarrow> os_state \<Rightarrow> listener_pc \<times> thread_target list \<times> os_state" where
  "listen_for_new_instances g pc os =
     (case listener_try g pc os of
        Waiting pc' os' \<Rightarrow> (pc', [], os')
      | Break os' \<Rightarrow> (Stopped, [], os')
      | Raised e os' \<Rightarrow> (Stopped, [], os')
      | Completed ts os' \<Rightarrow>
          (case listen_for_new_instances g At_accept os' of
             (pc', ts', os'') \<Rightarrow> (pc', ts @ ts', os'')))"
  by pat_completeness auto
termination
proof (relation "measure (\<lambda>(g, pc, os). 2 * pending g os + (case pc of At_recv c \<Rightarrow> 1 | _ \<Rightarrow> 0))")
  show "wf (measure (\<lambda>(g, pc, os). 2 * pending g os + (case pc of At_recv c \<Rightarrow> 1 | _ \<Rightarrow> 0)))"
    by simp
next
  fix g pc os ts os'
  assume "listener_try g pc os = Completed ts os'"
  from pending_try[OF this]
  show "((g, At_accept, os'), (g, pc, os))
      \<in> measure (\<lambda>(g, pc, os). 2 * pending g os + (case pc of At_recv c \<Rightarrow> 1 | _ \<Rightarrow> 0))"
    by simp
qed

declare listen_for_new_instances.simps [simp del]

section \<open>Main entry point\<close>

text \<open>
  \<^verbatim>\<open>run\<close> (lines 915-997). What the process does besides socket calls is recorded as a list
  of effects: text printed, the exit hook registered, threads started, and the tray icon
  shown by \<^verbatim>\<open>icon.run()\<close>. \<open>today\<close> is the date read by \<^verbatim>\<open>current_cw()\<close>. The import of
  pystray in the first line of \<^verbatim>\<open>run\<close> and the construction of the menu are taken to
  succeed; \<open>start_tray\<close> is the part of \<^verbatim>\<open>run\<close> after the single-instance check
  (lines 933-997).
\<close>

datatype effect =
    Print string
  | Atexit_register
  | Thread_started thread_target
  | Tray_icon_run pystray_icon

text \<open>The effects that put something on the screen.\<close>

fun is_ui :: "effect \<Rightarrow> bool" where
  "is_ui (Print s) = False"
| "is_ui Atexit_register = False"
| "is_ui (Thread_started t) = (t = Target_show_calendar \<or> t = Target_show_path_warning)"
| "is_ui (Tray_icon_run ic) = True"

definition start_tray ::
  "date \<Rightarrow> globals \<Rightarrow> os_state \<Rightarrow> (exn + unit) \<times> effect list \<times> globals \<times> os_state" where
  "start_tray today g os =
     (case thread_start os of
        (Inl e, os1) \<Rightarrow> (Inl e, [Atexit_register], g, os1)
      | (Inr u, os1) \<Rightarrow>
          (case current_cw today of
             None \<Rightarrow>
               (Inl AssertionError,
                [Atexit_register, Thread_started Target_show_path_warning], g, os1)
           | Some cw \<Rightarrow>
               (case thread_start os1 of
                  (Inl e, os2) \<Rightarrow>
                    (Inl e, [Atexit_register, Thread_started Target_show_path_warning], g, os2)
                | (Inr u, os2) \<Rightarrow>
                    (case thread_start os2 of
                       (Inl e, os3) \<Rightarrow>
                         (Inl e,
                          [Atexit_register, Thread_started Target_show_path_warning,
                           Thread_started Target_listen_for_new_instances], g, os3)
                     | (Inr u, os3) \<Rightarrow>
                         (Inr (),
                          [Atexit_register, Thread_started Target_show_path_warning,
                           Thread_started Target_listen_for_new_instances,
                           Thread_started Target_refresh_loop,
                           Tray_icon_run
                             \<lparr>icon = create_icon cw, title = ''Week '' @ format_02d cw\<rparr>],
                          g, os3)))))"

definition run ::
  "date \<Rightarrow> globals \<Rightarrow> os_state \<Rightarrow> (exn + unit) \<times> effect list \<times> globals \<times> os_state" where
  "run today g os =
     (case acquire_single_instance_lock g os of
        (Inl e, g1, os1) \<Rightarrow> (Inl e, [], g1, os1)
      | (Inr acquired, g1, os1) \<Rightarrow>
          if \<not> acquired then
            (case notify_existing_instance os1 of
               (Inl e, os2) \<Rightarrow> (Inl e, [Print ''CalendarWeek is already running.''], g1, os2)
             | (Inr u, os2) \<Rightarrow>
                 (Inl (SystemExit 0), [Print ''CalendarWeek is already running.''], g1, os2))
          else start_tray today g1 os1)"

text \<open>An operating system state with no socket open, and one in which a foreign socket
  holds the lock address without listening.\<close>

definition fresh_os :: os_state where
  "fresh_os = \<lparr>sockets = Map.empty, port_table = Map.empty, next_sock = 0, clock = 0,
               faults = {}\<rparr>"

definition busy_os :: os_state where
  "busy_os = \<lparr>sockets = [0 \<mapsto> new_socket\<lparr>bound_to := Some lock_address\<rparr>],
              port_table = [lock_address \<mapsto> 0], next_sock = 1, clock = 0, faults = {}\<rparr>"

text \<open>The process holds the lock: its \<^verbatim>\<open>LOCK_SOCKET\<close> is the open socket bound to the address.\<close>

definition lock_held :: "globals \<Rightarrow> os_state \<Rightarrow> bool" where
  "lock_held g os =
     (case LOCK_SOCKET g of
        None \<Rightarrow> False
      | Some s \<Rightarrow>
          port_table os lock_address = Some s \<and>
          (case sockets os s of None \<Rightarrow> False | Some i \<Rightarrow> bound_to i = Some lock_address))"

text \<open>\<^verbatim>\<open>release_single_instance_lock\<close> called \<open>n\<close> times in a row (a raise would end the row).\<close>

fun release_times :: "nat \<Rightarrow> globals \<Rightarrow> os_state \<Rightarrow> (exn + unit) \<times> globals \<times> os_state" where
  "release_times 0 g os = (Inr (), g, os)"
| "release_times (Suc n) g os =
     (case release_single_instance_lock g os of
        (Inl e, g', os') \<Rightarrow> (Inl e, g', os')
      | (Inr u, g', os') \<Rightarrow> release_times n g' os')"

text \<open>
  A notification that has arrived in full: the connection end \<open>e\<close> holds the bytes \<open>p\<close>
  that its client sent, and the client has closed.
\<close>

definition delivered :: "os_state \<Rightarrow> sock \<Rightarrow> string \<Rightarrow> bool" where
  "delivered os e p =
     (case sockets os e of
        None \<Rightarrow> False
      | Some ei \<Rightarrow>
          inbox ei = p \<and> eof ei \<and> accept_queue ei = [] \<and> bound_to ei = None \<and>
          (case peer ei of None \<Rightarrow> True | Some c \<Rightarrow> sockets os c = None))"

text \<open>
  The lock socket of the process listens, and the connections waiting on it are the ends
  \<open>map fst eps\<close>, each with its notification delivered.
\<close>

definition queued :: "globals \<Rightarrow> os_state \<Rightarrow> (sock \<times> string) list \<Rightarrow> bool" where
  "queued g os eps =
     (case LOCK_SOCKET g of
        None \<Rightarrow> False
      | Some l \<Rightarrow>
          (case sockets os l of
             None \<Rightarrow> False
           | Some li \<Rightarrow>
               listening li \<and> accept_queue li = map fst eps \<and> distinct (map fst eps) \<and>
               l \<notin> set (map fst eps) \<and> list_all (\<lambda>(e, p). delivered os e p) eps))"

text \<open>The threads that the listener starts for a list of payloads: one for each \<^verbatim>\<open>SHOW\<close>.\<close>

definition callbacks :: "string list \<Rightarrow> thread_target list" where
  "callbacks ps = map (\<lambda>p. Target_show_calendar) (filter (\<lambda>p. p = SHOW) ps)"

text \<open>
  A state in which one notification waits: socket 0 holds the lock address and listens,
  and the connection end 3 holds \<^verbatim>\<open>SHOW\<close> from a client (socket 2) that has closed.
\<close>

definition notified_os :: os_state where
  "notified_os =
     \<lparr>sockets = [0 \<mapsto> new_socket\<lparr>bound_to := Some lock_address, listening := True,
                                  backlog := 1, accept_queue := [3]\<rparr>,
                 3 \<mapsto> new_socket\<lparr>peer := Some 2, inbox := SHOW, eof := True\<rparr>],
      port_table = [lock_address \<mapsto> 0], next_sock = 4, clock = 10, faults = {}\<rparr>"

text \<open>The state after the first process of a session has acquired the lock.\<close>

definition listening_os :: os_state where
  "listening_os =
     \<lparr>sockets = [0 \<mapsto> new_socket\<lparr>bound_to := Some lock_address, listening := True,
                                  backlog := 1\<rparr>],
      port_table = [lock_address \<mapsto> 0], next_sock = 1, clock = 3, faults = {}\<rparr>"

text \<open>
  The calls of \<^verbatim>\<open>notify_existing_instance\<close> with the listener of the active instance
  running in between: at each of the three points between the four calls the listener
  thread either gets to run, until it waits or stops, or it does not. \<open>(pc, ts, os)\<close> is
  where the listener stands, the threads it has started so far, and the state.
\<close>

definition listener_turn ::
  "bool \<Rightarrow> globals \<Rightarrow> listener_pc \<times> thread_target list \<times> os_state
     \<Rightarrow> listener_pc \<times> thread_target list \<times> os_state" where
  "listener_turn runs g st =
     (case st of (pc, ts, os) \<Rightarrow>
        if runs then
          (case listen_for_new_instances g pc os of (pc', ts', os') \<Rightarrow> (pc', ts @ ts', os'))
        else (pc, ts, os))"

definition notify_interleaved ::
  "globals \<Rightarrow> bool \<Rightarrow> bool \<Rightarrow> bool \<Rightarrow> listener_pc \<times> thread_target list \<times> os_state
     \<Rightarrow> (exn + unit) \<times> listener_pc \<times> thread_target list \<times> os_state" where
  "notify_interleaved g b1 b2 b3 st =
     (case st of (pc, ts, os) \<Rightarrow>
        (case sock_socket os of
           (Inl e, os1) \<Rightarrow> (Inr (), pc, ts, os1)
         | (Inr client, os1) \<Rightarrow>
             (case listener_turn b1 g (pc, ts, os1) of (pc1, ts1, os1') \<Rightarrow>
                (case sock_connect client lock_address os1' of
                   (Inl e, os2) \<Rightarrow> (Inr (), pc1, ts1, os2)
                 | (Inr u, os2) \<Rightarrow>
                     (case listener_turn b2 g (pc1, ts1, os2) of (pc2, ts2, os2') \<Rightarrow>
                        (case sock_send client SHOW os2' of
                           (Inl e, os3) \<Rightarrow> (Inr (), pc2, ts2, os3)
                         | (Inr n, os3) \<Rightarrow>
                             (case listener_turn b3 g (pc2, ts2, os3) of (pc3, ts3, os3') \<Rightarrow>
                                (case sock_close client os3' of
                                   (Inl e, os4) \<Rightarrow> (Inr (), pc3, ts3, os4)
                                 | (Inr u, os4) \<Rightarrow> (Inr (), pc3, ts3, os4)))))))))"

section \<open>Calendar window\<close>

text \<open>
  \<^verbatim>\<open>show_calendar\<close> (lines 526-801) runs in a thread of its own for every request
  (\<^verbatim>\<open>open_calendar\<close>, line 818, and the listener, line 986), so several runs can be under
  way at once. They share the module global \<^verbatim>\<open>calendar_window\<close> and the lock
  \<^verbatim>\<open>window_lock\<close>. The model is a machine in which one thread at a time executes its next
  piece of code; a thread that needs the lock cannot move while another thread holds it.

  \<open>windows\<close> lists the Tk root windows that exist (created and not destroyed);
  \<open>raised\<close> records the windows brought to the front by \<^verbatim>\<open>lift()\<close> and
  \<^verbatim>\<open>focus_force()\<close> at lines 547-548.
\<close>

type_synonym window = nat

type_synonym thread = nat

datatype pc =
    Enter_check
  | In_check
  | Create
  | Enter_store window
  | In_store window
  | Mainloop window
  | Enter_clear window
  | In_clear window
  | Destroy window
  | Returned

record gui =
  calendar_window :: "window option"
  window_lock :: "thread option"
  windows :: "window list"
  next_window :: window
  raised :: "window list"
  threads :: "pc list"

definition initial_gui :: gui where
  "initial_gui = \<lparr>calendar_window = None, window_lock = None, windows = [], next_window = 0,
                   raised = [], threads = []\<rparr>"

text \<open>
  The next piece of code of thread \<open>t\<close>, which stands at \<open>p\<close>; \<open>None\<close> when the thread
  cannot move (it waits for the lock, sits in its event loop, or has returned).

  \<^item> \<open>Enter_check\<close>, \<open>Enter_store\<close>, \<open>Enter_clear\<close>: entering \<^verbatim>\<open>with window_lock\<close> at lines
    544, 572 and 780.
  \<^item> \<open>In_check\<close>: lines 545-552, then the lock is released. An existing window is raised
    and the function returns; a window that was destroyed raises \<^verbatim>\<open>TclError\<close>, the
    reference is cleared, and the function goes on as if there had been none.
  \<^item> \<open>Create\<close>: lines 555-569, \<^verbatim>\<open>root = tk.Tk()\<close>, outside the lock.
  \<^item> \<open>In_store\<close>: line 573. The rest of the function builds the widgets and enters
    \<^verbatim>\<open>root.mainloop()\<close>.
  \<^item> \<open>In_clear\<close>: line 781, in \<^verbatim>\<open>on_close\<close>; \<open>Destroy\<close>: line 783, after which
    \<^verbatim>\<open>mainloop\<close> and \<^verbatim>\<open>show_calendar\<close> return.
\<close>

definition show_calendar_step :: "thread \<Rightarrow> pc \<Rightarrow> gui \<Rightarrow> (pc \<times> gui) option" where
  "show_calendar_step t p s =
     (case p of
        Enter_check \<Rightarrow>
          if window_lock s = None then Some (In_check, s\<lparr>window_lock := Some t\<rparr>) else None
      | In_check \<Rightarrow>
          (case calendar_window s of
             None \<Rightarrow> Some (Create, s\<lparr>window_lock := None\<rparr>)
           | Some w \<Rightarrow>
               if w \<in> set (windows s)
               then Some (Returned, s\<lparr>raised := raised s @ [w], window_lock := None\<rparr>)
               else Some (Create, s\<lparr>calendar_window := None, window_lock := None\<rparr>))
      | Create \<Rightarrow>
          Some (Enter_store (next_window s),
                s\<lparr>windows := windows s @ [next_window s], next_window := Suc (next_window s)\<rparr>)
      | Enter_store w \<Rightarrow>
          if window_lock s = None then Some (In_store w, s\<lparr>window_lock := Some t\<rparr>) else None
      | In_store w \<Rightarrow> Some (Mainloop w, s\<lparr>calendar_window := Some w, window_lock := None\<rparr>)
      | Mainloop w \<Rightarrow> None
      | Enter_clear w \<Rightarrow>
          if window_lock s = None then Some (In_clear w, s\<lparr>window_lock := Some t\<rparr>) else None
      | In_clear w \<Rightarrow> Some (Destroy w, s\<lparr>calendar_window := None, window_lock := None\<rparr>)
      | Destroy w \<Rightarrow> Some (Returned, s\<lparr>windows := removeAll w (windows s)\<rparr>)
      | Returned \<Rightarrow> None)"

text \<open>
  What can happen next: a request to open the calendar starts a thread running
  \<^verbatim>\<open>show_calendar\<close>; a thread executes its next piece of code; the user closes a window
  (Escape or the close button), which makes the thread in that window's event loop run
  \<^verbatim>\<open>on_close\<close>.
\<close>

datatype action = Open_request | Run thread | Close_window window

definition step :: "action \<Rightarrow> gui \<Rightarrow> gui option" where
  "step a s =
     (case a of
        Open_request \<Rightarrow> Some (s\<lparr>threads := threads s @ [Enter_check]\<rparr>)
      | Run t \<Rightarrow>
          if t < length (threads s) then
            (case show_calendar_step t (threads s ! t) s of
               None \<Rightarrow> None
             | Some (p', s') \<Rightarrow> Some (s'\<lparr>threads := (threads s)[t := p']\<rparr>))
          else None
      | Close_window w \<Rightarrow>
          (case find (\<lambda>t. threads s ! t = Mainloop w) [0 ..< length (threads s)] of
             None \<Rightarrow> None
           | Some t \<Rightarrow> Some (s\<lparr>threads := (threads s)[t := Enter_clear w]\<rparr>)))"

fun steps :: "action list \<Rightarrow> gui \<Rightarrow> gui option" where
  "steps [] s = Some s"
| "steps (a # as) s = (case step a s of None \<Rightarrow> None | Some s' \<Rightarrow> steps as s')"

text \<open>A calendar window is open and registered, and no thread is on its way.\<close>

definition settled :: "gui \<Rightarrow> window \<Rightarrow> bool" where
  "settled s w \<longleftrightarrow>
     calendar_window s = Some w \<and> windows s = [w] \<and> window_lock s = None \<and>
     list_all (\<lambda>p. p = Mainloop w \<or> p = Returned) (threads s)"

text \<open>
  The lock does what a lock does: a thread stands inside one of the three
  \<^verbatim>\<open>with window_lock\<close> blocks exactly when it holds the lock, so no two threads are
  inside such blocks at once.
\<close>

definition in_block :: "pc \<Rightarrow> bool" where
  "in_block p \<longleftrightarrow> (case p of In_check \<Rightarrow> True | In_store w \<Rightarrow> True | In_clear w \<Rightarrow> True
                               | _ \<Rightarrow> False)"

definition lock_inv :: "gui \<Rightarrow> bool" where
  "lock_inv s \<longleftrightarrow> (\<forall>t < length (threads s). in_block (threads s ! t) \<longleftrightarrow> window_lock s = Some t)
                  \<and> (\<forall>t. window_lock s = Some t \<longrightarrow> t < length (threads s))"

section \<open>The week clock computes the ISO 8601 week\<close>

lemma div_step:
  assumes "0 < (k::int)"
  shows "y div k - (y - 1) div k = (if y mod k = 0 then 1 else 0)"
proof (cases "y mod k = 0")
  case True
  then have "y = k * (y div k)" by auto
  then have "y - 1 = k * (y div k - 1) + (k - 1)"
    by (simp add: right_diff_distrib)
  then have "(y - 1) div k = y div k - 1"
    using assms by (intro int_div_pos_eq[where r = "k - 1"]) auto
  with True show ?thesis by simp
next
  case False
  have r: "0 < y mod k" "y mod k < k"
    using False pos_mod_sign[OF assms, of y] pos_mod_bound[OF assms, of y] by auto
  have "y - 1 = k * (y div k) + (y mod k - 1)"
    by simp
  then have "(y - 1) div k = y div k"
    using r by (intro int_div_pos_eq[where r = "y mod k - 1"]) auto
  with False show ?thesis by simp
qed

lemma leap_count:
  "(p400 \<longrightarrow> p100) \<Longrightarrow> (p100 \<longrightarrow> p4) \<Longrightarrow>
   365 + (if p4 then 1 else 0) - (if p100 then 1 else 0) + (if p400 then 1 else 0)
   = (if p4 \<and> (\<not> p100 \<or> p400) then 366 else (365::int))"
  by (cases p4; cases p100; cases p400; simp)

lemma days_before_year_Suc:
  "days_before_year (y + 1) = days_before_year y + (if is_leap y then 366 else 365)"
proof -
  have a: "y div 4 - (y - 1) div 4 = (if y mod 4 = 0 then 1 else 0)"
    by (rule div_step) simp
  have b: "y div 100 - (y - 1) div 100 = (if y mod 100 = 0 then 1 else 0)"
    by (rule div_step) simp
  have c: "y div 400 - (y - 1) div 400 = (if y mod 400 = 0 then 1 else 0)"
    by (rule div_step) simp
  have "y mod 400 = 0 \<Longrightarrow> y mod 100 = 0"
    using mod_mod_cancel[of 100 400 y] by simp
  then have d: "y mod 400 = 0 \<longrightarrow> y mod 100 = 0" ..
  have "y mod 100 = 0 \<Longrightarrow> y mod 4 = 0"
    using mod_mod_cancel[of 4 100 y] by simp
  then have e: "y mod 100 = 0 \<longrightarrow> y mod 4 = 0" ..
  have "days_before_year (y + 1) - days_before_year y
        = 365 + (y div 4 - (y - 1) div 4) - (y div 100 - (y - 1) div 100)
              + (y div 400 - (y - 1) div 400)"
    unfolding days_before_year_def Let_def by simp
  also have "\<dots> = (if is_leap y then 366 else 365)"
    unfolding a b c is_leap_def by (rule leap_count[OF d e])
  finally show ?thesis by simp
qed

lemma DAYS_BEFORE_MONTH_table:
  "DAYS_BEFORE_MONTH = [-1, 0, 31, 59, 90, 120, 151, 181, 212, 243, 273, 304, 334]"
  by (simp add: DAYS_BEFORE_MONTH_def DAYS_IN_MONTH_def)

lemma months_upt:
  "[Suc 0 ..< 2] = [1]" "[Suc 0 ..< 3] = [1,2]" "[Suc 0 ..< 4] = [1,2,3]"
  "[Suc 0 ..< 5] = [1,2,3,4]" "[Suc 0 ..< 6] = [1,2,3,4,5]" "[Suc 0 ..< 7] = [1,2,3,4,5,6]"
  "[Suc 0 ..< 8] = [1,2,3,4,5,6,7]" "[Suc 0 ..< 9] = [1,2,3,4,5,6,7,8]"
  "[Suc 0 ..< 10] = [1,2,3,4,5,6,7,8,9]" "[Suc 0 ..< 11] = [1,2,3,4,5,6,7,8,9,10]"
  "[Suc 0 ..< 12] = [1,2,3,4,5,6,7,8,9,10,11]"
  by (simp_all add: upt_conv_Cons)

lemma month_cases:
  assumes "1 \<le> (m::int)" "m \<le> 12"
  obtains "m = 1" | "m = 2" | "m = 3" | "m = 4" | "m = 5" | "m = 6"
        | "m = 7" | "m = 8" | "m = 9" | "m = 10" | "m = 11" | "m = 12"
proof -
  have "m = 1 \<or> m = 2 \<or> m = 3 \<or> m = 4 \<or> m = 5 \<or> m = 6
      \<or> m = 7 \<or> m = 8 \<or> m = 9 \<or> m = 10 \<or> m = 11 \<or> m = 12"
    using assms by arith
  then show thesis using that by blast
qed

text \<open>Days of the year before the first of month m, the month lengths summed.\<close>

lemma days_before_month_sum:
  assumes "1 \<le> m" "m \<le> 12"
  shows "days_before_month y m =
     Some (\<Sum>k \<leftarrow> [1 ..< nat m]. if k = 2 \<and> is_leap y then 29 else DAYS_IN_MONTH ! k)"
  using assms
  by (cases m rule: month_cases)
     (simp_all add: days_before_month_def DAYS_BEFORE_MONTH_table DAYS_IN_MONTH_def months_upt)

lemma ymd2ord_day_number:
  assumes "check_date_fields d"
  shows "ymd2ord (year d) (month d) (day d) = Some (day_number d)"
proof -
  from assms have m: "1 \<le> month d" "month d \<le> 12"
    by (simp_all add: check_date_fields_def)
  from assms m obtain dim where dim: "days_in_month (year d) (month d) = Some dim"
    "1 \<le> day d" "day d \<le> dim"
    by (auto simp add: check_date_fields_def split: option.splits)
  show ?thesis
    using m dim by (simp add: ymd2ord_def days_before_month_sum day_number_def)
qed

lemma ymd2ord_new_year: "ymd2ord y 1 1 = Some (new_years_day y)"
  by (simp add: ymd2ord_def days_in_month_def days_before_month_def DAYS_IN_MONTH_def
      DAYS_BEFORE_MONTH_table new_years_day_def)

lemma day_number_in_year:
  assumes "check_date_fields d"
  shows "new_years_day (year d) \<le> day_number d" "day_number d < new_years_day (year d + 1)"
proof -
  from assms have m: "1 \<le> month d" "month d \<le> 12"
    by (simp_all add: check_date_fields_def)
  have dd: "1 \<le> day d"
    "day d \<le> (if month d = 2 \<and> is_leap (year d) then 29 else DAYS_IN_MONTH ! nat (month d))"
    using assms m by (auto simp add: check_date_fields_def days_in_month_def split: if_splits)
  show "new_years_day (year d) \<le> day_number d"
    using m(1,2) dd
    by (cases "month d" rule: month_cases)
       (simp_all add: day_number_def new_years_day_def months_upt DAYS_IN_MONTH_def)
  show "day_number d < new_years_day (year d + 1)"
    using m(1,2) dd
    by (cases "month d" rule: month_cases)
       (simp_all add: day_number_def new_years_day_def months_upt DAYS_IN_MONTH_def
          days_before_year_Suc split: if_splits)
qed

lemma weekday_cases:
  obtains "weekday_of n = 0" | "weekday_of n = 1" | "weekday_of n = 2" | "weekday_of n = 3"
        | "weekday_of n = 4" | "weekday_of n = 5" | "weekday_of n = 6"
proof -
  have "0 \<le> weekday_of n" "weekday_of n < 7"
    by (simp_all add: weekday_of_def)
  then have "weekday_of n = 0 \<or> weekday_of n = 1 \<or> weekday_of n = 2 \<or> weekday_of n = 3
      \<or> weekday_of n = 4 \<or> weekday_of n = 5 \<or> weekday_of n = 6"
    by arith
  then show thesis using that by blast
qed

lemma week1_start_eq:
  "week1_start y = new_years_day y - weekday_of (new_years_day y)
     + (if weekday_of (new_years_day y) > 3 then 7 else 0)"
  by (cases "new_years_day y" rule: weekday_cases)
     (simp_all add: week1_start_def first_thursday_def)

lemma isoweek1monday_week1_start: "isoweek1monday y = Some (week1_start y)"
  by (simp add: isoweek1monday_def ymd2ord_new_year Let_def THURSDAY_def week1_start_eq
      weekday_of_def)

lemma week1_start_near:
  "new_years_day y - 3 \<le> week1_start y" "week1_start y \<le> new_years_day y + 3"
  by (cases "new_years_day y" rule: weekday_cases; simp add: week1_start_eq)+

lemma week1_start_monday: "weekday_of (week1_start y) = 0"
proof -
  have "(n - (n + 6) mod 7 + 6) mod 7 = 0" for n :: int
    by presburger
  moreover have "(n - (n + 6) mod 7 + 7 + 6) mod 7 = 0" for n :: int
    by presburger
  ultimately show ?thesis
    by (simp add: week1_start_eq) (simp add: weekday_of_def)
qed

lemma first_thursday_is_first: "is_first_thursday y (first_thursday y)"
proof -
  have "weekday_of (first_thursday y) = 3"
    using week1_start_monday[of y] unfolding week1_start_def weekday_of_def by presburger
  moreover have "0 \<le> (3 - weekday_of (new_years_day y)) mod 7"
    "(3 - weekday_of (new_years_day y)) mod 7 < 7"
    by simp_all
  ultimately show ?thesis
    by (simp add: is_first_thursday_def first_thursday_def)
qed

lemma first_thursday_unique:
  assumes "is_first_thursday y t"
  shows "t = first_thursday y"
proof -
  have "weekday_of t = weekday_of (first_thursday y)"
    using assms first_thursday_is_first[of y] by (simp add: is_first_thursday_def)
  then have "7 dvd (t + 6) - (first_thursday y + 6)"
    unfolding weekday_of_def by (simp only: mod_eq_dvd_iff)
  then have "(t - first_thursday y) mod 7 = 0"
    by (simp add: mod_eq_0_iff_dvd)
  moreover define k where "k = t - first_thursday y"
  moreover have "t - first_thursday y < 7" "first_thursday y - t < 7"
    using assms first_thursday_is_first[of y] unfolding is_first_thursday_def by linarith+
  ultimately have "k mod 7 = 0" "k < 7" "- 7 < k"
    by simp_all
  then have "k = 0"
    by presburger
  then show ?thesis
    by (simp add: k_def)
qed

lemma week1_start_step:
  "week1_start (y + 1) - week1_start y = 364 \<or> week1_start (y + 1) - week1_start y = 371"
proof -
  have m: "(week1_start (y + 1) + 6) mod 7 = 0" "(week1_start y + 6) mod 7 = 0"
    using week1_start_monday[of "y + 1"] week1_start_monday[of y]
    by (simp_all add: weekday_of_def)
  have "new_years_day (y + 1) - new_years_day y = 365
      \<or> new_years_day (y + 1) - new_years_day y = 366"
    by (simp add: new_years_day_def days_before_year_Suc)
  then have b: "359 \<le> week1_start (y + 1) - week1_start y"
    "week1_start (y + 1) - week1_start y \<le> 372"
    using week1_start_near[of y] week1_start_near[of "y + 1"] by linarith+
  show ?thesis using m b by presburger
qed

lemma new_years_day_step:
  "new_years_day y + 365 \<le> new_years_day (y + 1)" "new_years_day (y + 1) \<le> new_years_day y + 366"
  by (simp_all add: new_years_day_def days_before_year_Suc)

lemma week_index_bounds:
  fixes a :: int
  shows "a div 7 < 0 \<longleftrightarrow> a < 0" "52 \<le> a div 7 \<longleftrightarrow> 364 \<le> a"
    "a div 7 \<le> 52 \<longleftrightarrow> a < 371" "0 \<le> a \<Longrightarrow> a < 7 \<Longrightarrow> a div 7 = 0"
  by presburger+

lemma iso8601_year_contains:
  assumes "check_date_fields d"
  shows "week1_start (iso8601_year d) \<le> day_number d"
    "day_number d < week1_start (iso8601_year d + 1)"
proof -
  note b = day_number_in_year[OF assms]
  have p: "week1_start (year d - 1) < day_number d"
    using b(1) week1_start_near(2)[of "year d - 1"] new_years_day_step(1)[of "year d - 1"]
    by simp
  have n: "day_number d < week1_start (year d + 1 + 1)"
    using b(2) week1_start_near(1)[of "year d + 1 + 1"] new_years_day_step(1)[of "year d + 1"]
    by linarith
  show "week1_start (iso8601_year d) \<le> day_number d"
    using p by (simp add: iso8601_year_def)
  show "day_number d < week1_start (iso8601_year d + 1)"
    using n by (simp add: iso8601_year_def)
qed

lemma iso8601_week_range:
  assumes "check_date_fields d"
  shows "1 \<le> iso8601_week d" "iso8601_week d \<le> 53"
proof -
  note c = iso8601_year_contains[OF assms]
  have "0 \<le> day_number d - week1_start (iso8601_year d)"
    using c(1) by simp
  then have "0 \<le> (day_number d - week1_start (iso8601_year d)) div 7"
    by (simp add: pos_imp_zdiv_nonneg_iff)
  then show "1 \<le> iso8601_week d"
    by (simp add: iso8601_week_def)
  have "day_number d - week1_start (iso8601_year d) < 371"
    using c(2) week1_start_step[of "iso8601_year d"] by linarith
  then show "iso8601_week d \<le> 53"
    by (simp add: iso8601_week_def week_index_bounds(3))
qed

lemma current_cw_iso8601:
  assumes "check_date_fields d"
  shows "current_cw d = Some (iso8601_week d)"
proof -
  define n where "n = day_number d"
  define y where "y = year d"
  note b = day_number_in_year[OF assms, folded n_def y_def]
  have iso: "isocalendar d =
      (if n < week1_start y then
         Some (y - 1, (n - week1_start (y - 1)) div 7 + 1, (n - week1_start (y - 1)) mod 7 + 1)
       else if 364 \<le> n - week1_start y then
         (if week1_start (y + 1) \<le> n then Some (y + 1, 1, (n - week1_start y) mod 7 + 1)
          else Some (y, (n - week1_start y) div 7 + 1, (n - week1_start y) mod 7 + 1))
       else Some (y, (n - week1_start y) div 7 + 1, (n - week1_start y) mod 7 + 1))"
    by (simp add: isocalendar_def isoweek1monday_week1_start ymd2ord_day_number[OF assms]
        Let_def week_index_bounds(1,2) n_def y_def)
  consider (before) "n < week1_start y"
    | (after) "week1_start y \<le> n" "week1_start (y + 1) \<le> n"
    | (within) "week1_start y \<le> n" "n < week1_start (y + 1)"
    by linarith
  then show ?thesis
  proof cases
    case before
    then show ?thesis
      by (simp add: current_cw_def iso iso8601_week_def iso8601_year_def
          n_def[symmetric] y_def[symmetric])
  next
    case after
    have "364 \<le> n - week1_start y"
      using after(2) week1_start_step[of y] by linarith
    moreover have "n - week1_start (y + 1) < 7"
      using b(2) week1_start_near(1)[of "y + 1"] by linarith
    then have "(n - week1_start (y + 1)) div 7 = 0"
      using after(2) by (simp add: week_index_bounds(4))
    ultimately show ?thesis
      using after
      by (simp add: current_cw_def iso iso8601_week_def iso8601_year_def
          n_def[symmetric] y_def[symmetric])
  next
    case within
    then show ?thesis
      by (simp add: current_cw_def iso iso8601_week_def iso8601_year_def
          n_def[symmetric] y_def[symmetric])
  qed
qed

text \<open>
  Claim C8. For every date \<open>today\<close> that a \<^verbatim>\<open>date\<close> object can hold, the week-clock
  computation \<^verbatim>\<open>current_cw\<close> returns the ISO 8601 week number of that date: the number
  of the Monday-start week, counted from the week that contains the first Thursday of the
  date's ISO year; the number lies between 1 and 53. (For instance 2024-01-01 is in week 1,
  and 2024-12-31 is in week 1 of ISO year 2025.)
\<close>

theorem current_cw_iso8601_week:
  assumes "check_date_fields today"
  shows "current_cw today = Some (iso8601_week today)
       \<and> 1 \<le> iso8601_week today \<and> iso8601_week today \<le> 53
       \<and> is_first_thursday (iso8601_year today) (week1_start (iso8601_year today) + 3)
       \<and> weekday_of (week1_start (iso8601_year today)) = 0
       \<and> week1_start (iso8601_year today) \<le> day_number today
       \<and> day_number today < week1_start (iso8601_year today + 1)"
  using current_cw_iso8601[OF assms] iso8601_week_range[OF assms]
    iso8601_year_contains[OF assms] week1_start_monday[of "iso8601_year today"]
    first_thursday_is_first[of "iso8601_year today"]
  by (simp add: week1_start_def)

theorem current_cw_iso8601_week_witness:
  "check_date_fields \<lparr>year = 2024, month = 1, day = 1\<rparr>
   \<and> current_cw \<lparr>year = 2024, month = 1, day = 1\<rparr> = Some 1
   \<and> check_date_fields \<lparr>year = 2024, month = 12, day = 31\<rparr>
   \<and> current_cw \<lparr>year = 2024, month = 12, day = 31\<rparr> = Some 1
   \<and> iso8601_year \<lparr>year = 2024, month = 12, day = 31\<rparr> = 2025"
proof -
  have a: "check_date_fields \<lparr>year = 2024, month = 1, day = 1\<rparr>"
    by code_simp
  have b: "check_date_fields \<lparr>year = 2024, month = 12, day = 31\<rparr>"
    by code_simp
  have a1: "iso8601_week \<lparr>year = 2024, month = 1, day = 1\<rparr> = 1"
    by code_simp
  have b1: "iso8601_week \<lparr>year = 2024, month = 12, day = 31\<rparr> = 1"
    by code_simp
  have b2: "iso8601_year \<lparr>year = 2024, month = 12, day = 31\<rparr> = 2025"
    by code_simp
  show ?thesis
    using current_cw_iso8601_week[OF a] current_cw_iso8601_week[OF b] a b a1 b1 b2
    by simp
qed

section \<open>The startup path check\<close>

lemma check_startup_path_not_registered:
  "\<not> is_in_startup h \<Longrightarrow> check_startup_path h = Inr (True, None)"
  by (simp add: check_startup_path_def)

lemma check_startup_path_unreadable:
  "get_registered_path h = Inr None \<Longrightarrow> check_startup_path h = Inr (True, None)"
  by (simp add: check_startup_path_def)

lemma check_startup_path_mismatch:
  assumes "check_startup_path h = Inr (False, msg)"
  shows "\<exists>registered. get_registered_path h = Inr (Some registered) \<and> registered \<noteq> []
           \<and> normpath h registered \<noteq> normpath h (get_exe_path h)
           \<and> msg = Some (moved_message registered (get_exe_path h))"
  using assms
  by (simp add: check_startup_path_def Let_def split: if_splits sum.splits option.splits)

lemma check_startup_path_message:
  assumes "check_startup_path h = Inr (ok, msg)"
  shows "ok \<longleftrightarrow> msg = None"
  using assms
  by (auto simp add: check_startup_path_def Let_def split: if_splits sum.splits option.splits)

text \<open>
  Claim C10. \<^verbatim>\<open>check_startup_path\<close> returns \<^verbatim>\<open>(True, None)\<close> whenever the application is
  not registered for startup, and whenever \<^verbatim>\<open>get_registered_path\<close> returns \<^verbatim>\<open>None\<close> (the
  registration cannot be read); it returns \<^verbatim>\<open>(False, message)\<close> only when a registered path
  string exists whose normalised form differs from the normalised path of the running
  program. So a registration from which no path can be read counts as valid.
\<close>

theorem check_startup_path_valid_unless_mismatch:
  "(\<not> is_in_startup h \<longrightarrow> check_startup_path h = Inr (True, None))
   \<and> (get_registered_path h = Inr None \<longrightarrow> check_startup_path h = Inr (True, None))
   \<and> (\<forall>msg. check_startup_path h = Inr (False, msg) \<longrightarrow>
          (\<exists>registered. get_registered_path h = Inr (Some registered)
             \<and> normpath h registered \<noteq> normpath h (get_exe_path h)
             \<and> msg = Some (moved_message registered (get_exe_path h))))"
  using check_startup_path_not_registered[of h] check_startup_path_unreadable[of h]
    check_startup_path_mismatch[of h]
  by blast

lemma linux_host_registered: "is_in_startup (linux_host content)"
  by (simp add: is_in_startup_def linux_host_def path_exists_def get_startup_path_linux_def
      APP_NAME_def)

lemma linux_host_no_exec:
  "get_registered_path (linux_host (''[Desktop Entry]'' @ [CHR 0x0A] @ ''Type=Application''))
     = Inr None"
  by (simp add: get_registered_path_def linux_host_def get_startup_path_linux_def APP_NAME_def
      startswith_def)

lemma linux_host_moved:
  "check_startup_path (linux_host (''Exec=/old/CalendarWeek'' @ [CHR 0x0A]))
     = Inr (False, Some (moved_message ''/old/CalendarWeek'' ''/opt/cw/CalendarWeek''))"
  by (simp add: check_startup_path_def linux_host_registered)
     (simp add: get_registered_path_def linux_host_def get_startup_path_linux_def APP_NAME_def
      startswith_def after_first_eq_def strip_def isspace_def get_exe_path_def)

theorem check_startup_path_valid_unless_mismatch_witness:
  "is_in_startup (linux_host (''[Desktop Entry]'' @ [CHR 0x0A] @ ''Type=Application''))
   \<and> get_registered_path (linux_host (''[Desktop Entry]'' @ [CHR 0x0A] @ ''Type=Application''))
       = Inr None
   \<and> check_startup_path (linux_host (''[Desktop Entry]'' @ [CHR 0x0A] @ ''Type=Application''))
       = Inr (True, None)
   \<and> check_startup_path (linux_host (''Exec=/old/CalendarWeek'' @ [CHR 0x0A]))
       = Inr (False, Some (moved_message ''/old/CalendarWeek'' ''/opt/cw/CalendarWeek''))
   \<and> get_registered_path (linux_host (''Exec=/old/CalendarWeek'' @ [CHR 0x0A]))
       = Inr (Some ''/old/CalendarWeek'')"
proof -
  let ?a = "linux_host (''[Desktop Entry]'' @ [CHR 0x0A] @ ''Type=Application'')"
  let ?b = "linux_host (''Exec=/old/CalendarWeek'' @ [CHR 0x0A])"
  have 1: "check_startup_path ?a = Inr (True, None)"
    using check_startup_path_valid_unless_mismatch[of ?a] linux_host_no_exec by blast
  have "\<exists>registered. get_registered_path ?b = Inr (Some registered)
          \<and> normpath ?b registered \<noteq> normpath ?b (get_exe_path ?b)
          \<and> Some (moved_message ''/old/CalendarWeek'' ''/opt/cw/CalendarWeek'')
              = Some (moved_message registered (get_exe_path ?b))"
    using check_startup_path_valid_unless_mismatch[of ?b] linux_host_moved by blast
  moreover have "get_registered_path ?b = Inr (Some ''/old/CalendarWeek'')"
    by (simp add: get_registered_path_def linux_host_def get_startup_path_linux_def APP_NAME_def
      startswith_def after_first_eq_def strip_def isspace_def)
  ultimately show ?thesis
    using 1 linux_host_registered linux_host_no_exec linux_host_moved by simp
qed

section \<open>The refresh assigns the icon exactly when the week changes\<close>

lemma refresh_pass_changed:
  assumes "current_cw today = Some new_cw" "new_cw \<noteq> last_cw"
  shows "refresh_pass today (ic, last_cw) =
           Inr (ic\<lparr>icon := create_icon new_cw, title := ''Week '' @ format_02d new_cw\<rparr>, new_cw,
                [Set_icon (create_icon new_cw), Set_title (''Week '' @ format_02d new_cw)])"
  using assms by (simp add: refresh_pass_def)

lemma refresh_pass_unchanged:
  assumes "current_cw today = Some last_cw"
  shows "refresh_pass today (ic, last_cw) = Inr (ic, last_cw, [])"
  using assms by (simp add: refresh_pass_def)

lemma refresh_loop_same_week:
  assumes "\<forall>(visible, today) \<in> set env. current_cw today = Some last_cw"
  shows "refresh_loop ic last_cw env = Inr (ic, last_cw, [])"
  using assms
proof (induction env)
  case Nil
  then show ?case by simp
next
  case (Cons ve env)
  obtain visible today where ve: "ve = (visible, today)"
    by (cases ve)
  from Cons.prems ve have "current_cw today = Some last_cw"
    by simp
  then have "refresh_pass today (ic, last_cw) = Inr (ic, last_cw, [])"
    by (rule refresh_pass_unchanged)
  moreover have "refresh_loop ic last_cw env = Inr (ic, last_cw, [])"
    using Cons by simp
  ultimately show ?case
    by (simp add: ve)
qed

lemma refresh_pass_displays:
  assumes "check_date_fields today" "displays ic last_cw"
  shows "\<exists>ic' ws. refresh_pass today (ic, last_cw) = Inr (ic', iso8601_week today, ws)
           \<and> displays ic' (iso8601_week today)"
proof (cases "iso8601_week today = last_cw")
  case True
  then show ?thesis
    using refresh_pass_unchanged[of today last_cw ic] current_cw_iso8601[OF assms(1)] assms(2)
    by simp
next
  case False
  then show ?thesis
    using refresh_pass_changed[OF current_cw_iso8601[OF assms(1)], of last_cw ic]
    by (simp add: displays_def)
qed

text \<open>
  Through the whole loop the variable \<^verbatim>\<open>last_cw\<close> is the week that the icon displays,
  provided it is so when the loop starts.
\<close>

lemma refresh_loop_displays:
  assumes "displays ic last_cw" "\<forall>(visible, today) \<in> set env. check_date_fields today"
  shows "\<exists>ic' last_cw' ws. refresh_loop ic last_cw env = Inr (ic', last_cw', ws)
           \<and> displays ic' last_cw'"
  using assms
proof (induction env arbitrary: ic last_cw)
  case Nil
  then show ?case by simp
next
  case (Cons ve env)
  obtain visible today where ve: "ve = (visible, today)"
    by (cases ve)
  show ?case
  proof (cases visible)
    case False
    then show ?thesis
      using Cons.prems(1) by (simp add: ve)
  next
    case True
    have v: "check_date_fields today"
      using Cons.prems(2) ve by simp
    from refresh_pass_displays[OF v Cons.prems(1)] obtain ic1 ws1 where
      p: "refresh_pass today (ic, last_cw) = Inr (ic1, iso8601_week today, ws1)"
      and d: "displays ic1 (iso8601_week today)"
      by blast
    have "\<forall>(visible, today) \<in> set env. check_date_fields today"
      using Cons.prems(2) by simp
    from Cons.IH[OF d this] obtain ic' last_cw' ws' where
      "refresh_loop ic1 (iso8601_week today) env = Inr (ic', last_cw', ws')"
      "displays ic' last_cw'"
      by blast
    then show ?thesis
      using True p by (simp add: ve)
  qed
qed

text \<open>
  Claim C9. On each tick of the hourly refresh, the tray icon and its title are assigned if
  and only if the newly computed week number differs from the one last displayed; when it is
  equal, the icon is left as it was and nothing is assigned.
\<close>

theorem refresh_pass_updates_iff_changed:
  assumes "check_date_fields today" and "displays ic last_cw"
  shows "\<exists>ic' ws. refresh_pass today (ic, last_cw) = Inr (ic', iso8601_week today, ws)
           \<and> displays ic' (iso8601_week today)
           \<and> (ws \<noteq> [] \<longleftrightarrow> iso8601_week today \<noteq> last_cw)
           \<and> (iso8601_week today = last_cw \<longrightarrow> ic' = ic)
           \<and> (iso8601_week today \<noteq> last_cw \<longrightarrow>
                 ws = [Set_icon (create_icon (iso8601_week today)),
                       Set_title (''Week '' @ format_02d (iso8601_week today))])"
proof -
  have cw: "current_cw today = Some (iso8601_week today)"
    using current_cw_iso8601[OF assms(1)] .
  show ?thesis
  proof (cases "iso8601_week today = last_cw")
    case True
    then show ?thesis
      using refresh_pass_unchanged[of today last_cw ic] cw assms(2) by simp
  next
    case False
    then show ?thesis
      using refresh_pass_changed[OF cw, of last_cw ic] by (simp add: displays_def)
  qed
qed

lemma format_02d_45: "format_02d 45 = ''45''"
  by code_simp

lemma format_02d_5: "format_02d 5 = ''05''"
  by code_simp

theorem refresh_pass_updates_iff_changed_witness:
  "check_date_fields \<lparr>year = 2026, month = 11, day = 3\<rparr>
   \<and> displays \<lparr>icon = create_icon 44, title = ''Week 44''\<rparr> 44
   \<and> refresh_pass \<lparr>year = 2026, month = 11, day = 3\<rparr>
        (\<lparr>icon = create_icon 44, title = ''Week 44''\<rparr>, 44)
      = Inr (\<lparr>icon = create_icon 45, title = ''Week 45''\<rparr>, 45,
             [Set_icon (create_icon 45), Set_title ''Week 45''])
   \<and> displays \<lparr>icon = create_icon 45, title = ''Week 45''\<rparr> 45
   \<and> refresh_pass \<lparr>year = 2026, month = 11, day = 3\<rparr>
        (\<lparr>icon = create_icon 45, title = ''Week 45''\<rparr>, 45)
      = Inr (\<lparr>icon = create_icon 45, title = ''Week 45''\<rparr>, 45, [])"
proof -
  let ?d = "\<lparr>year = 2026, month = 11, day = 3\<rparr>"
  have v: "check_date_fields ?d"
    by code_simp
  have w: "iso8601_week ?d = 45"
    by code_simp
  have f: "format_02d 44 = ''44''" "format_02d 45 = ''45''"
    by code_simp+
  have d44: "displays \<lparr>icon = create_icon 44, title = ''Week 44''\<rparr> 44"
    by (simp add: displays_def f)
  have d45: "displays \<lparr>icon = create_icon 45, title = ''Week 45''\<rparr> 45"
    by (simp add: displays_def f)
  show ?thesis
    using refresh_pass_updates_iff_changed[OF v d44] refresh_pass_updates_iff_changed[OF v d45]
      v d44 d45
    by (auto simp add: w f displays_def)
qed

section \<open>The instance lock\<close>

lemma faults_tick: "faults (tick os) = faults os"
  by (simp add: tick_def)

lemma acquire_true:
  assumes "acquire_single_instance_lock g os = (Inr True, g', os')"
  shows "lock_held g' os'" "faults os' = faults os" "LOCK_SOCKET g' = Some (next_sock os)"
    "next_sock os' = Suc (next_sock os)"
  using assms
  by (auto simp add: acquire_single_instance_lock_def acquire_failed_def sock_socket_def
      sock_bind_def sock_listen_def sock_close_def tick_def Let_def lock_held_def
      split: if_splits prod.splits sum.splits option.splits)

lemma acquire_busy_not_true:
  assumes "port_table os lock_address \<noteq> None"
  shows "fst (acquire_single_instance_lock g os) \<noteq> Inr True"
  using assms
  by (auto simp add: acquire_single_instance_lock_def acquire_failed_def sock_socket_def
      sock_bind_def sock_close_def tick_def Let_def
      split: if_splits prod.splits sum.splits option.splits)

lemma acquire_busy_false:
  assumes "port_table os lock_address = Some s" "faults os = {}"
  shows "acquire_single_instance_lock g os =
           (Inr False, g\<lparr>LOCK_SOCKET := None\<rparr>,
            os\<lparr>next_sock := Suc (next_sock os),
               sockets := (sockets os)(next_sock os := None),
               clock := Suc (Suc (Suc (clock os)))\<rparr>)"
  using assms
  by (simp add: acquire_single_instance_lock_def acquire_failed_def sock_socket_def
      sock_bind_def sock_close_def tick_def Let_def failing_def hang_up_def new_socket_def)

lemma lock_held_later:
  assumes "lock_held g os" "LOCK_SOCKET g = Some s" "s \<noteq> n"
  shows "lock_held g (os\<lparr>next_sock := n', sockets := (sockets os)(n := None), clock := c\<rparr>)"
  using assms by (auto simp add: lock_held_def split: option.splits)

text \<open>
  Claim C1. When a call of \<^verbatim>\<open>acquire\<close> has succeeded, so that its process holds the
  binding, a second call in the same session without a release in between does not
  succeed: made by another process (one whose own \<^verbatim>\<open>LOCK_SOCKET\<close> is still \<^verbatim>\<open>None\<close>, as it
  is when \<^verbatim>\<open>run\<close> calls \<^verbatim>\<open>acquire\<close>), it returns \<^verbatim>\<open>False\<close>, and the first process keeps
  the lock. (The only other outcome is an error raised by the operating system for a
  reason of its own, which \<open>faults\<close> stands for.)
\<close>

theorem acquire_twice_true_then_false:
  assumes "acquire_single_instance_lock gA os = (Inr True, gA', os')"
    and "LOCK_SOCKET gB = None"
  shows "fst (acquire_single_instance_lock gB os') \<noteq> Inr True
       \<and> (faults os = {} \<longrightarrow>
            (\<exists>os''. acquire_single_instance_lock gB os' = (Inr False, gB, os'')
                    \<and> lock_held gA' os''))"
proof -
  note a = acquire_true[OF assms(1)]
  from a(1) obtain s where s: "port_table os' lock_address = Some s"
    by (auto simp add: lock_held_def split: option.splits)
  have 1: "fst (acquire_single_instance_lock gB os') \<noteq> Inr True"
    using s by (intro acquire_busy_not_true) simp
  have 2: "\<exists>os''. acquire_single_instance_lock gB os' = (Inr False, gB, os'')
                    \<and> lock_held gA' os''" if "faults os = {}"
  proof -
    have "faults os' = {}"
      using a(2) that by simp
    from acquire_busy_false[OF s this, of gB]
    have "acquire_single_instance_lock gB os' =
            (Inr False, gB,
             os'\<lparr>next_sock := Suc (next_sock os'),
                 sockets := (sockets os')(next_sock os' := None),
                 clock := Suc (Suc (Suc (clock os')))\<rparr>)"
      using assms(2) by simp
    moreover have "next_sock os \<noteq> next_sock os'"
      using a(4) by simp
    ultimately show ?thesis
      using lock_held_later[OF a(1) a(3)] by simp
  qed
  from 1 2 show ?thesis by blast
qed

lemma acquire_fresh:
  "acquire_single_instance_lock initial_globals fresh_os =
     (Inr True, \<lparr>LOCK_SOCKET = Some 0\<rparr>,
      \<lparr>sockets = [0 \<mapsto> new_socket\<lparr>bound_to := Some lock_address, listening := True,
                                   backlog := 1\<rparr>],
       port_table = [lock_address \<mapsto> 0], next_sock = 1, clock = 3, faults = {}\<rparr>)"
  by (simp add: acquire_single_instance_lock_def sock_socket_def sock_bind_def sock_listen_def
      tick_def Let_def failing_def fresh_os_def initial_globals_def new_socket_def)

theorem acquire_twice_true_then_false_witness:
  "acquire_single_instance_lock initial_globals fresh_os =
     (Inr True, \<lparr>LOCK_SOCKET = Some 0\<rparr>,
      \<lparr>sockets = [0 \<mapsto> new_socket\<lparr>bound_to := Some lock_address, listening := True,
                                   backlog := 1\<rparr>],
       port_table = [lock_address \<mapsto> 0], next_sock = 1, clock = 3, faults = {}\<rparr>)
   \<and> LOCK_SOCKET initial_globals = None \<and> faults fresh_os = {}
   \<and> fst (acquire_single_instance_lock initial_globals
        \<lparr>sockets = [0 \<mapsto> new_socket\<lparr>bound_to := Some lock_address, listening := True,
                                     backlog := 1\<rparr>],
         port_table = [lock_address \<mapsto> 0], next_sock = 1, clock = 3, faults = {}\<rparr>)
       = Inr False"
proof -
  have n: "LOCK_SOCKET initial_globals = None"
    by (simp add: initial_globals_def)
  have f: "faults fresh_os = {}"
    by (simp add: fresh_os_def)
  show ?thesis
    using acquire_twice_true_then_false[OF acquire_fresh n] acquire_fresh n f
    by auto
qed

lemma release_not_held:
  "LOCK_SOCKET g = None \<Longrightarrow> release_single_instance_lock g os = (Inr (), g, os)"
  by (simp add: release_single_instance_lock_def)

lemma release_returns:
  "\<exists>os'. release_single_instance_lock g os = (Inr (), g\<lparr>LOCK_SOCKET := None\<rparr>, os')"
  by (cases "LOCK_SOCKET g")
     (auto simp add: release_single_instance_lock_def split: prod.splits sum.splits)

lemma release_times_not_held:
  "LOCK_SOCKET g = None \<Longrightarrow> release_times n g os = (Inr (), g, os)"
  by (induction n) (simp_all add: release_not_held)

text \<open>
  Claim C6. \<^verbatim>\<open>release\<close> is idempotent: it never raises, in any state; when the lock is
  not held it changes nothing; and after one call, any number of further calls leave the
  state as the first call left it.
\<close>

theorem release_idempotent:
  "(\<exists>os'. release_single_instance_lock g os = (Inr (), g\<lparr>LOCK_SOCKET := None\<rparr>, os')
      \<and> release_single_instance_lock (g\<lparr>LOCK_SOCKET := None\<rparr>) os'
          = (Inr (), g\<lparr>LOCK_SOCKET := None\<rparr>, os')
      \<and> release_times (Suc n) g os = (Inr (), g\<lparr>LOCK_SOCKET := None\<rparr>, os'))
   \<and> (LOCK_SOCKET g = None \<longrightarrow> release_single_instance_lock g os = (Inr (), g, os))"
proof -
  obtain os' where r: "release_single_instance_lock g os = (Inr (), g\<lparr>LOCK_SOCKET := None\<rparr>, os')"
    using release_returns by blast
  have "release_times (Suc n) g os = release_times n (g\<lparr>LOCK_SOCKET := None\<rparr>) os'"
    using r by simp
  then have "release_times (Suc n) g os = (Inr (), g\<lparr>LOCK_SOCKET := None\<rparr>, os')"
    by (simp add: release_times_not_held)
  then show ?thesis
    using r release_not_held[of "g\<lparr>LOCK_SOCKET := None\<rparr>" os'] release_not_held[of g os]
    by auto
qed

theorem release_idempotent_witness:
  "LOCK_SOCKET initial_globals = None
   \<and> release_single_instance_lock initial_globals fresh_os = (Inr (), initial_globals, fresh_os)
   \<and> release_times 3 \<lparr>LOCK_SOCKET = Some 0\<rparr> busy_os
       = release_single_instance_lock \<lparr>LOCK_SOCKET = Some 0\<rparr> busy_os"
proof -
  have n: "LOCK_SOCKET initial_globals = None"
    by (simp add: initial_globals_def)
  have "release_times (Suc 2) \<lparr>LOCK_SOCKET = Some 0\<rparr> busy_os
       = release_single_instance_lock \<lparr>LOCK_SOCKET = Some 0\<rparr> busy_os"
    using release_idempotent[of "\<lparr>LOCK_SOCKET = Some 0\<rparr>" busy_os 2] by auto
  then show ?thesis
    using release_idempotent[of initial_globals fresh_os 0] n
    by (simp add: numeral_3_eq_3)
qed

lemma port_table_hang_up: "port_table (hang_up s os) = port_table os"
  by (simp add: hang_up_def Let_def split: option.splits)

lemma port_table_hang_up_all: "port_table (foldr hang_up ss os) = port_table os"
  by (induction ss) (simp_all add: port_table_hang_up)

lemma faults_hang_up: "faults (hang_up s os) = faults os"
  by (simp add: hang_up_def Let_def split: option.splits)

lemma faults_hang_up_all: "faults (foldr hang_up ss os) = faults os"
  by (induction ss) (simp_all add: faults_hang_up)

lemma release_frees:
  assumes "lock_held g os"
  shows "port_table (snd (snd (release_single_instance_lock g os))) lock_address = None"
    "faults (snd (snd (release_single_instance_lock g os))) = faults os"
  using assms
  by (auto simp add: lock_held_def release_single_instance_lock_def sock_close_def Let_def
      tick_def port_table_hang_up port_table_hang_up_all faults_hang_up faults_hang_up_all
      split: option.splits)

lemma acquire_free:
  assumes "port_table os lock_address = None" "faults os = {}"
  shows "\<exists>os'. acquire_single_instance_lock g os
            = (Inr True, g\<lparr>LOCK_SOCKET := Some (next_sock os)\<rparr>, os')"
  using assms
  by (simp add: acquire_single_instance_lock_def sock_socket_def sock_bind_def sock_listen_def
      tick_def Let_def failing_def new_socket_def)

text \<open>
  Claim C7. When the lock is held, \<^verbatim>\<open>release\<close> frees the address, and the next
  \<^verbatim>\<open>acquire\<close> on it, by the same process or by another, succeeds and holds the lock. (An
  error raised by the operating system for a reason of its own is excluded by
  \<open>faults os = {}\<close>.)
\<close>

theorem release_then_acquire_succeeds:
  assumes "lock_held g os" and "faults os = {}"
  shows "\<exists>os'. release_single_instance_lock g os = (Inr (), g\<lparr>LOCK_SOCKET := None\<rparr>, os')
           \<and> port_table os' lock_address = None
           \<and> (\<exists>os''. acquire_single_instance_lock (g\<lparr>LOCK_SOCKET := None\<rparr>) os'
                       = (Inr True, g\<lparr>LOCK_SOCKET := Some (next_sock os')\<rparr>, os'')
                     \<and> lock_held (g\<lparr>LOCK_SOCKET := Some (next_sock os')\<rparr>) os'')
           \<and> (\<exists>gB' os''. acquire_single_instance_lock gB os' = (Inr True, gB', os'')
                     \<and> lock_held gB' os'')"
proof -
  obtain os' where r: "release_single_instance_lock g os = (Inr (), g\<lparr>LOCK_SOCKET := None\<rparr>, os')"
    using release_returns by blast
  have free: "port_table os' lock_address = None" and nf: "faults os' = {}"
    using release_frees[OF assms(1)] r assms(2) by simp_all
  have acq: "\<exists>os''. acquire_single_instance_lock h os'
                  = (Inr True, h\<lparr>LOCK_SOCKET := Some (next_sock os')\<rparr>, os'')
                \<and> lock_held (h\<lparr>LOCK_SOCKET := Some (next_sock os')\<rparr>) os''" for h
  proof -
    obtain os'' where a: "acquire_single_instance_lock h os'
        = (Inr True, h\<lparr>LOCK_SOCKET := Some (next_sock os')\<rparr>, os'')"
      using acquire_free[OF free nf] by blast
    from acquire_true(1)[OF a] a show ?thesis by blast
  qed
  from acq[of "g\<lparr>LOCK_SOCKET := None\<rparr>"] acq[of gB] r free show ?thesis
    by auto
qed

theorem release_then_acquire_succeeds_witness:
  "lock_held \<lparr>LOCK_SOCKET = Some 0\<rparr> busy_os \<and> faults busy_os = {}
   \<and> fst (release_single_instance_lock \<lparr>LOCK_SOCKET = Some 0\<rparr> busy_os) = Inr ()
   \<and> fst (acquire_single_instance_lock \<lparr>LOCK_SOCKET = None\<rparr>
            (snd (snd (release_single_instance_lock \<lparr>LOCK_SOCKET = Some 0\<rparr> busy_os))))
       = Inr True"
proof -
  have h: "lock_held \<lparr>LOCK_SOCKET = Some 0\<rparr> busy_os"
    by (simp add: lock_held_def busy_os_def new_socket_def)
  have f: "faults busy_os = {}"
    by (simp add: busy_os_def)
  from release_then_acquire_succeeds[OF h f, where gB = initial_globals]
  obtain os' os'' where
    r: "release_single_instance_lock \<lparr>LOCK_SOCKET = Some 0\<rparr> busy_os
          = (Inr (), \<lparr>LOCK_SOCKET = None\<rparr>, os')"
    and a: "acquire_single_instance_lock \<lparr>LOCK_SOCKET = None\<rparr> os'
          = (Inr True, \<lparr>LOCK_SOCKET = Some (next_sock os')\<rparr>, os'')"
    by auto
  show ?thesis
    using r a h f by simp
qed

section \<open>Notifying the active instance\<close>

lemma notify_returns: "\<exists>os'. notify_existing_instance os = (Inr (), os')"
  by (simp add: notify_existing_instance_def split: prod.splits sum.splits)

lemma notify_attempt_refused:
  assumes "port_table os lock_address = None"
  shows "\<exists>os'. notify_attempt os = (Inl OSError, os')"
  using assms
  by (simp add: notify_attempt_def sock_socket_def sock_connect_def tick_def new_socket_def)

lemma run_redundant:
  assumes "acquire_single_instance_lock g os = (Inr False, g1, os1)"
    and "notify_existing_instance os1 = (Inr (), os2)"
  shows "run today g os =
           (Inl (SystemExit 0), [Print ''CalendarWeek is already running.''], g1, os2)"
  using assms by (simp add: run_def)

text \<open>
  Claim C4. \<^verbatim>\<open>notify_existing_instance\<close> never raises: whatever fails inside it (for
  instance the connection, when nothing listens at the address) is swallowed. After a
  failed \<^verbatim>\<open>acquire\<close> the redundant process prints its message, calls it, and exits with
  status 0 whether or not the signal was delivered, having shown no user interface.
\<close>

theorem notify_never_raises_then_exit_0:
  "(\<exists>os'. notify_existing_instance os = (Inr (), os'))
   \<and> (port_table os lock_address = None \<longrightarrow>
         (\<exists>os'. notify_attempt os = (Inl OSError, os')))
   \<and> (acquire_single_instance_lock g os = (Inr False, g1, os1) \<longrightarrow>
         (\<exists>os2. notify_existing_instance os1 = (Inr (), os2)
            \<and> run today g os =
                (Inl (SystemExit 0), [Print ''CalendarWeek is already running.''], g1, os2)
            \<and> filter is_ui (fst (snd (run today g os))) = []))"
proof -
  have "\<exists>os2. notify_existing_instance os1 = (Inr (), os2)
            \<and> run today g os =
                (Inl (SystemExit 0), [Print ''CalendarWeek is already running.''], g1, os2)
            \<and> filter is_ui (fst (snd (run today g os))) = []"
    if a: "acquire_single_instance_lock g os = (Inr False, g1, os1)"
  proof -
    obtain os2 where n: "notify_existing_instance os1 = (Inr (), os2)"
      using notify_returns by blast
    from run_redundant[OF a n] n show ?thesis
      by simp
  qed
  then show ?thesis
    using notify_returns[of os] notify_attempt_refused[of os] by blast
qed

lemma acquire_busy_os:
  "acquire_single_instance_lock initial_globals busy_os =
     (Inr False, initial_globals,
      busy_os\<lparr>next_sock := 2, sockets := (sockets busy_os)(1 := None), clock := 3\<rparr>)"
  using acquire_busy_false[of busy_os 0 initial_globals]
  by (simp add: busy_os_def initial_globals_def)

theorem notify_never_raises_then_exit_0_witness:
  "port_table fresh_os lock_address = None
   \<and> fst (notify_attempt fresh_os) = Inl OSError
   \<and> fst (notify_existing_instance fresh_os) = Inr ()
   \<and> fst (acquire_single_instance_lock initial_globals busy_os) = Inr False
   \<and> fst (run \<lparr>year = 2026, month = 11, day = 3\<rparr> initial_globals busy_os)
       = Inl (SystemExit 0)
   \<and> fst (snd (run \<lparr>year = 2026, month = 11, day = 3\<rparr> initial_globals busy_os))
       = [Print ''CalendarWeek is already running.'']"
proof -
  have p: "port_table fresh_os lock_address = None"
    by (simp add: fresh_os_def)
  note t1 = notify_never_raises_then_exit_0[of fresh_os initial_globals initial_globals fresh_os
      "\<lparr>year = 2026, month = 11, day = 3\<rparr>"]
  note t2 = notify_never_raises_then_exit_0[of busy_os initial_globals initial_globals
      "busy_os\<lparr>next_sock := 2, sockets := (sockets busy_os)(1 := None), clock := 3\<rparr>"
      "\<lparr>year = 2026, month = 11, day = 3\<rparr>"]
  show ?thesis
    using t1 t2 p acquire_busy_os by auto
qed

section \<open>The listener\<close>

lemma take_1024_SHOW: "take 1024 p = SHOW \<longleftrightarrow> p = SHOW"
proof
  assume t: "take 1024 p = SHOW"
  then have "length (take 1024 p) = 4"
    by (simp add: SHOW_def)
  then have "length p = 4"
    by (simp add: min_def split: if_splits)
  with t show "p = SHOW"
    by simp
next
  assume "p = SHOW"
  then show "take 1024 p = SHOW"
    by (simp add: SHOW_def)
qed

lemma recv_delivered:
  assumes "delivered os e p" "faults os = {}"
  shows "\<exists>os1. sock_recv e 1024 os = Some (Inr (take 1024 p), os1)
           \<and> faults os1 = {}
           \<and> (\<forall>s. s \<noteq> e \<longrightarrow> sockets os1 s = sockets os s)
           \<and> (\<exists>ei. sockets os1 e = Some ei \<and> accept_queue ei = [] \<and> bound_to ei = None
                  \<and> (case peer ei of None \<Rightarrow> True | Some c \<Rightarrow> sockets os c = None))
           \<and> port_table os1 = port_table os \<and> next_sock os1 = next_sock os"
  using assms
  by (auto simp add: delivered_def sock_recv_def failing_def tick_def split: option.splits)

lemma dispatch_delivered:
  assumes "delivered os e p" "faults os = {}"
  shows "\<exists>os'. listener_dispatch e os = Completed (callbacks [p]) os'
           \<and> sockets os' = (sockets os)(e := None) \<and> faults os' = {}
           \<and> port_table os' = port_table os \<and> next_sock os' = next_sock os"
proof -
  from recv_delivered[OF assms] obtain os1 ei where
    r: "sock_recv e 1024 os = Some (Inr (take 1024 p), os1)" and f1: "faults os1 = {}"
    and same: "\<forall>s. s \<noteq> e \<longrightarrow> sockets os1 s = sockets os s"
    and ei: "sockets os1 e = Some ei" "accept_queue ei = []" "bound_to ei = None"
      "case peer ei of None \<Rightarrow> True | Some c \<Rightarrow> sockets os c = None"
    and pt: "port_table os1 = port_table os" "next_sock os1 = next_sock os"
    by blast
  have gone: "sockets (hang_up e os1) = (sockets os)(e := None)"
  proof (cases "peer ei")
    case None
    then show ?thesis
      using ei(1) same by (auto simp add: hang_up_def Let_def)
  next
    case (Some c)
    with ei(4) have c: "sockets os c = None"
      by simp
    have "c \<noteq> e \<Longrightarrow> sockets os1 c = None"
      using same c by simp
    then have "((sockets os1)(e := None)) c = None"
      by auto
    then show ?thesis
      using ei(1) Some same by (auto simp add: hang_up_def Let_def)
  qed
  have c: "sock_close e os1 = (Inr (), tick (hang_up e os1))"
    using ei f1 by (simp add: sock_close_def Let_def failing_def)
  have f2: "faults (tick (hang_up e os1)) = {}"
    using f1 by (simp add: faults_tick faults_hang_up)
  show ?thesis
  proof (cases "p = SHOW")
    case True
    then have t: "take 1024 p = SHOW"
      by (simp only: take_1024_SHOW)
    have "listener_dispatch e os = Completed [Target_show_calendar] (tick (tick (hang_up e os1)))"
      using r c f2 t by (simp add: listener_dispatch_def thread_start_def failing_def)
    then show ?thesis
      using True gone f2 pt
      by (simp add: callbacks_def tick_def port_table_hang_up hang_up_def Let_def ei(1))
  next
    case False
    then have t: "take 1024 p \<noteq> SHOW"
      by (simp only: take_1024_SHOW not_False_eq_True)
    have "listener_dispatch e os = Completed [] (tick (hang_up e os1))"
      using r c t by (simp add: listener_dispatch_def)
    then show ?thesis
      using False gone f2 pt
      by (simp add: callbacks_def tick_def port_table_hang_up hang_up_def Let_def ei(1))
  qed
qed

lemma delivered_after:
  assumes "delivered os e p"
    and "sockets os' e = sockets os e"
    and "\<forall>c. sockets os c = None \<longrightarrow> sockets os' c = None"
  shows "delivered os' e p"
  using assms by (auto simp add: delivered_def split: option.splits)

lemma try_queued:
  assumes q: "queued g os ((e, p) # rest)" and f: "faults os = {}"
  shows "\<exists>os'. listener_try g At_accept os = Completed (callbacks [p]) os'
           \<and> queued g os' rest \<and> faults os' = {}
           \<and> port_table os' = port_table os \<and> next_sock os' = next_sock os"
proof -
  from q obtain l li where l: "LOCK_SOCKET g = Some l" and li: "sockets os l = Some li"
    and lis: "listening li" and aq: "accept_queue li = e # map fst rest"
    and d: "distinct (e # map fst rest)" and nl: "l \<noteq> e" "l \<notin> set (map fst rest)"
    and de: "delivered os e p" and dr: "list_all (\<lambda>(e, p). delivered os e p) rest"
    by (auto simp add: queued_def split: option.splits)
  define os1 where "os1 = tick (os\<lparr>sockets := (sockets os)(l \<mapsto> li\<lparr>accept_queue := map fst rest\<rparr>)\<rparr>)"
  have a: "sock_accept l os = Some (Inr e, os1)"
    using li lis aq f by (simp add: sock_accept_def failing_def os1_def)
  have s1: "sockets os1 = (sockets os)(l \<mapsto> li\<lparr>accept_queue := map fst rest\<rparr>)"
    and f1: "faults os1 = {}" and p1: "port_table os1 = port_table os"
    and n1: "next_sock os1 = next_sock os"
    using f by (simp_all add: os1_def tick_def)
  have keep: "\<forall>c. sockets os c = None \<longrightarrow> sockets os1 c = None"
    using li by (auto simp add: s1)
  have "delivered os1 e p"
  proof (rule delivered_after[OF de])
    show "sockets os1 e = sockets os e"
      using nl(1) by (simp add: s1)
    show "\<forall>c. sockets os c = None \<longrightarrow> sockets os1 c = None"
      by (rule keep)
  qed
  from dispatch_delivered[OF this f1] obtain os' where
    c: "listener_dispatch e os1 = Completed (callbacks [p]) os'"
    and s': "sockets os' = (sockets os1)(e := None)" and f': "faults os' = {}"
    and p': "port_table os' = port_table os1" and n': "next_sock os' = next_sock os1"
    by (elim exE conjE) (rule that; assumption)
  have t: "listener_try g At_accept os = Completed (callbacks [p]) os'"
    using l a c by (simp add: listener_try_def)
  have keep': "\<forall>c. sockets os c = None \<longrightarrow> sockets os' c = None"
    using keep by (simp add: s')
  have "delivered os' e' p'" if "(e', p') \<in> set rest" for e' p'
  proof -
    have "e' \<in> set (map fst rest)"
      using that by force
    then have "e' \<noteq> e" "e' \<noteq> l"
      using d nl(2) by auto
    then have "sockets os' e' = sockets os e'"
      by (simp add: s' s1)
    moreover have "delivered os e' p'"
      using dr that by (auto simp add: list_all_iff)
    ultimately show ?thesis
      using keep' by (intro delivered_after[of os e' p' os']) assumption+
  qed
  then have "list_all (\<lambda>(e, p). delivered os' e p) rest"
    by (auto simp add: list_all_iff)
  moreover have "sockets os' l = Some (li\<lparr>accept_queue := map fst rest\<rparr>)"
    using nl(1) by (simp add: s' s1)
  ultimately have "queued g os' rest"
    using l lis d nl(2) by (simp add: queued_def)
  with t f' p' n' p1 n1 show ?thesis
    by simp
qed

lemma try_queued_empty:
  assumes "queued g os []" "faults os = {}"
  shows "listener_try g At_accept os = Waiting At_accept os"
  using assms
  by (auto simp add: queued_def listener_try_def sock_accept_def failing_def split: option.splits)

lemma callbacks_Cons: "callbacks [p] @ callbacks ps = callbacks (p # ps)"
  by (simp add: callbacks_def)

lemma listen_queued:
  assumes "queued g os eps" "faults os = {}"
  shows "\<exists>os'. listen_for_new_instances g At_accept os = (At_accept, callbacks (map snd eps), os')
           \<and> queued g os' [] \<and> faults os' = {}
           \<and> port_table os' = port_table os \<and> next_sock os' = next_sock os"
  using assms
proof (induction eps arbitrary: os)
  case Nil
  then show ?case
    using try_queued_empty[of g os]
    by (simp add: listen_for_new_instances.simps[of g At_accept os] callbacks_def)
next
  case (Cons ep eps)
  obtain e p where ep: "ep = (e, p)"
    by (cases ep)
  from try_queued[OF Cons.prems(1)[unfolded ep] Cons.prems(2)] obtain os1 where
    t: "listener_try g At_accept os = Completed (callbacks [p]) os1"
    and q1: "queued g os1 eps" and f1: "faults os1 = {}"
    and k1: "port_table os1 = port_table os" "next_sock os1 = next_sock os"
    by blast
  from Cons.IH[OF q1 f1] obtain os' where
    r: "listen_for_new_instances g At_accept os1 = (At_accept, callbacks (map snd eps), os')"
    and q': "queued g os' []" and f': "faults os' = {}"
    and k': "port_table os' = port_table os1" "next_sock os' = next_sock os1"
    by blast
  have "listen_for_new_instances g At_accept os
      = (At_accept, callbacks [p] @ callbacks (map snd eps), os')"
    using t r by (simp add: listen_for_new_instances.simps[of g At_accept os])
  then show ?case
    using q' f' k' k1 by (simp add: ep callbacks_Cons)
qed

lemma listen_raised:
  assumes "listener_try g pc os = Raised e os'"
  shows "listen_for_new_instances g pc os = (Stopped, [], os')"
  using assms by (simp add: listen_for_new_instances.simps[of g pc os])

lemma listen_released:
  assumes "LOCK_SOCKET g = None"
  shows "listen_for_new_instances g At_accept os = (Stopped, [], os)"
  using assms by (simp add: listen_for_new_instances.simps[of g At_accept os] listener_try_def)

lemma try_accept_fails:
  assumes "LOCK_SOCKET g = Some l" "failing os \<or> sockets os l = None"
  shows "listener_try g At_accept os = Raised OSError (tick os)"
  using assms by (auto simp add: listener_try_def sock_accept_def)

lemma try_recv_fails:
  assumes "failing os \<or> sockets os conn = None"
  shows "listener_try g (At_recv conn) os = Raised OSError (tick os)"
  using assms by (auto simp add: listener_try_def listener_dispatch_def sock_recv_def)

lemma dispatch_completed:
  assumes "listener_try g (At_recv conn) os = Completed ts os'"
  shows "\<exists>data os1. sock_recv conn 1024 os = Some (Inr data, os1) \<and> ts = callbacks [data]"
  using assms
  by (auto simp add: listener_try_def listener_dispatch_def callbacks_def
      split: option.splits sum.splits prod.splits if_splits)

text \<open>
  Claim C3. The listener loop starts the show-calendar callback exactly for the payloads
  received that equal \<^verbatim>\<open>SHOW\<close>; it starts it as a thread and goes on to the next connection
  without waiting for it; and it ends, without raising, as soon as anything in a turn of
  the loop raises, and as soon as it finds that the lock socket is gone (\<^verbatim>\<open>LOCK_SOCKET\<close> is
  \<^verbatim>\<open>None\<close>, or the socket is closed).
\<close>

theorem listener_callbacks_and_errors:
  "(queued g os eps \<and> faults os = {} \<longrightarrow>
      (\<exists>os'. listen_for_new_instances g At_accept os
                = (At_accept, callbacks (map snd eps), os')
            \<and> queued g os' []))
   \<and> (\<forall>ts os'. listener_try g (At_recv conn) os = Completed ts os' \<longrightarrow>
          (\<exists>data os1. sock_recv conn 1024 os = Some (Inr data, os1) \<and> ts = callbacks [data]))
   \<and> (\<forall>e os'. listener_try g pc os = Raised e os' \<longrightarrow>
          listen_for_new_instances g pc os = (Stopped, [], os'))
   \<and> (LOCK_SOCKET g = None \<longrightarrow> listen_for_new_instances g At_accept os = (Stopped, [], os))
   \<and> (\<forall>l. LOCK_SOCKET g = Some l \<and> (failing os \<or> sockets os l = None) \<longrightarrow>
          listen_for_new_instances g At_accept os = (Stopped, [], tick os))
   \<and> (failing os \<or> sockets os conn = None \<longrightarrow>
          listen_for_new_instances g (At_recv conn) os = (Stopped, [], tick os))"
proof -
  have 1: "\<exists>os'. listen_for_new_instances g At_accept os
                = (At_accept, callbacks (map snd eps), os') \<and> queued g os' []"
    if "queued g os eps" "faults os = {}"
    using listen_queued[OF that] by blast
  have 4: "listen_for_new_instances g At_accept os = (Stopped, [], tick os)"
    if "LOCK_SOCKET g = Some l" "failing os \<or> sockets os l = None" for l
    using listen_raised[OF try_accept_fails[OF that]] .
  have 5: "listen_for_new_instances g (At_recv conn) os = (Stopped, [], tick os)"
    if "failing os \<or> sockets os conn = None"
    using listen_raised[OF try_recv_fails[OF that]] .
  show ?thesis
    using 1 4 5 listen_raised[of g pc os] listen_released[of g os]
      dispatch_completed[of g conn os]
    by blast
qed

lemma notified_os_queued: "queued \<lparr>LOCK_SOCKET = Some 0\<rparr> notified_os [(3, SHOW)]"
  by (simp add: queued_def delivered_def notified_os_def new_socket_def)

theorem listener_callbacks_and_errors_witness:
  "queued \<lparr>LOCK_SOCKET = Some 0\<rparr> notified_os [(3, SHOW)] \<and> faults notified_os = {}
   \<and> fst (listen_for_new_instances \<lparr>LOCK_SOCKET = Some 0\<rparr> At_accept notified_os) = At_accept
   \<and> fst (snd (listen_for_new_instances \<lparr>LOCK_SOCKET = Some 0\<rparr> At_accept notified_os))
       = [Target_show_calendar]
   \<and> LOCK_SOCKET initial_globals = None
   \<and> listen_for_new_instances initial_globals At_accept fresh_os = (Stopped, [], fresh_os)
   \<and> sockets fresh_os 0 = None
   \<and> listen_for_new_instances \<lparr>LOCK_SOCKET = Some 0\<rparr> At_accept fresh_os
       = (Stopped, [], tick fresh_os)"
proof -
  have f: "faults notified_os = {}"
    by (simp add: notified_os_def)
  have n: "LOCK_SOCKET initial_globals = None"
    by (simp add: initial_globals_def)
  have c: "sockets fresh_os 0 = None"
    by (simp add: fresh_os_def)
  have cb: "callbacks (map snd [(3::nat, SHOW)]) = [Target_show_calendar]"
    by (simp add: callbacks_def)
  note t1 = listener_callbacks_and_errors[of "\<lparr>LOCK_SOCKET = Some 0\<rparr>" notified_os
      "[(3, SHOW)]" 0 At_accept]
  note t2 = listener_callbacks_and_errors[of initial_globals fresh_os "[]" 0 At_accept]
  note t3 = listener_callbacks_and_errors[of "\<lparr>LOCK_SOCKET = Some 0\<rparr>" fresh_os "[]" 0
      At_accept]
  from t1 notified_os_queued f cb
  obtain os' where "listen_for_new_instances \<lparr>LOCK_SOCKET = Some 0\<rparr> At_accept notified_os
      = (At_accept, [Target_show_calendar], os')"
    by auto
  moreover from t2 n
  have "listen_for_new_instances initial_globals At_accept fresh_os = (Stopped, [], fresh_os)"
    by blast
  moreover from t3 c
  have "listen_for_new_instances \<lparr>LOCK_SOCKET = Some 0\<rparr> At_accept fresh_os
      = (Stopped, [], tick fresh_os)"
    by simp
  ultimately show ?thesis
    using notified_os_queued f n c by simp
qed

section \<open>From a redundant launch to the callback\<close>

lemma acquire_queued:
  assumes "acquire_single_instance_lock g os = (Inr True, g', os')"
  shows "queued g' os' []" "port_table os' lock_address = LOCK_SOCKET g'"
  using assms
  by (auto simp add: acquire_single_instance_lock_def acquire_failed_def sock_socket_def
      sock_bind_def sock_listen_def sock_close_def tick_def Let_def queued_def new_socket_def
      split: if_splits prod.splits sum.splits option.splits)

lemma queued_later:
  assumes "queued g os []" "LOCK_SOCKET g = Some l" "l \<noteq> n"
  shows "queued g (os\<lparr>next_sock := n', sockets := (sockets os)(n := None), clock := c\<rparr>) []"
  using assms by (auto simp add: queued_def split: option.splits)

lemma notify_delivers:
  assumes q: "queued g os []" and l: "LOCK_SOCKET g = Some l"
    and p: "port_table os lock_address = Some l" and n: "l < next_sock os"
    and f: "faults os = {}"
  shows "\<exists>os'. notify_existing_instance os = (Inr (), os')
           \<and> queued g os' [(Suc (next_sock os), SHOW)] \<and> faults os' = {}
           \<and> port_table os' = port_table os"
proof -
  from q l obtain li where li: "sockets os l = Some li" "listening li" "accept_queue li = []"
    by (auto simp add: queued_def split: option.splits)
  define c where "c = next_sock os"
  define e where "e = Suc (next_sock os)"
  have ne: "l \<noteq> c" "l \<noteq> e" "c \<noteq> e"
    using n by (simp_all add: c_def e_def)
  define os1 where "os1 = tick (os\<lparr>sockets := (sockets os)(c \<mapsto> new_socket), next_sock := e\<rparr>)"
  have 1: "sock_socket os = (Inr c, os1)"
    using f by (simp add: sock_socket_def failing_def os1_def c_def e_def)
  define os2 where "os2 = tick (os1\<lparr>sockets := (sockets os1)
      (c \<mapsto> new_socket\<lparr>peer := Some e\<rparr>, l \<mapsto> li\<lparr>accept_queue := [e]\<rparr>,
       e \<mapsto> new_socket\<lparr>peer := Some c\<rparr>), next_sock := Suc e\<rparr>)"
  have 2: "sock_connect c lock_address os1 = (Inr (), os2)"
    using f p li ne
    by (simp add: sock_connect_def failing_def os1_def os2_def tick_def new_socket_def Let_def)
  define os3 where "os3 = tick (os2\<lparr>sockets := (sockets os2)
      (e \<mapsto> new_socket\<lparr>peer := Some c, inbox := SHOW\<rparr>)\<rparr>)"
  have 3: "sock_send c SHOW os2 = (Inr (length SHOW), os3)"
    using f ne
    by (simp add: sock_send_def failing_def os1_def os2_def os3_def tick_def new_socket_def)
  define os4 where "os4 = tick (os3\<lparr>sockets := (sockets os3)
      (c := None, e \<mapsto> new_socket\<lparr>peer := Some c, inbox := SHOW, eof := True\<rparr>)\<rparr>)"
  have 4: "sock_close c os3 = (Inr (), os4)"
    using f ne
    by (simp add: sock_close_def hang_up_def failing_def os1_def os2_def os3_def os4_def
        tick_def new_socket_def Let_def)
  have "notify_attempt os = (Inr (), os4)"
    using 1 2 3 4 by (simp add: notify_attempt_def)
  then have r: "notify_existing_instance os = (Inr (), os4)"
    by (simp add: notify_existing_instance_def)
  have s4: "sockets os4 l = Some (li\<lparr>accept_queue := [e]\<rparr>)"
    "sockets os4 e = Some (new_socket\<lparr>peer := Some c, inbox := SHOW, eof := True\<rparr>)"
    "sockets os4 c = None"
    using ne by (simp_all add: os1_def os2_def os3_def os4_def tick_def)
  have "queued g os4 [(e, SHOW)]"
    using l li(2) ne s4 by (simp add: queued_def delivered_def new_socket_def)
  moreover have "faults os4 = {}" "port_table os4 = port_table os"
    using f by (simp_all add: os1_def os2_def os3_def os4_def tick_def)
  ultimately show ?thesis
    using r by (simp add: e_def)
qed

lemma notify_interleaved_none:
  "notify_interleaved g False False False (pc, ts, os)
     = (case notify_existing_instance os of (r, os') \<Rightarrow> (r, pc, ts, os'))"
  by (simp add: notify_interleaved_def listener_turn_def notify_existing_instance_def
      notify_attempt_def split: prod.splits sum.splits)

lemma SHOW_4: "take 1024 SHOW = SHOW" "drop 1024 SHOW = []" "SHOW \<noteq> []"
  by (simp_all add: SHOW_def)

text \<open>
  Wherever the listener gets to run between the calls of the notifying process, it has
  started the callback exactly once when it next waits in \<^verbatim>\<open>accept\<close>. The proof executes
  the eight schedules on the symbolic state.
\<close>

lemma notify_interleaved_once:
  assumes q: "queued g os []" and l: "LOCK_SOCKET g = Some l"
    and p: "port_table os lock_address = Some l" and n: "l < next_sock os"
    and f: "faults os = {}"
  shows "\<exists>pc' ts' os' os''.
           notify_interleaved g b1 b2 b3 (At_accept, [], os) = (Inr (), pc', ts', os')
         \<and> listener_turn True g (pc', ts', os') = (At_accept, [Target_show_calendar], os'')
         \<and> queued g os'' []"
proof -
  from q l obtain li where li: "sockets os l = Some li" "listening li" "accept_queue li = []"
    by (auto simp add: queued_def split: option.splits)
  have ne: "l \<noteq> next_sock os" "l \<noteq> Suc (next_sock os)" "next_sock os \<noteq> l"
    "Suc (next_sock os) \<noteq> l"
    using n by simp_all
  note defs = notify_interleaved_def listener_turn_def listener_try_def listener_dispatch_def
    sock_socket_def sock_connect_def sock_send_def sock_close_def sock_accept_def sock_recv_def
    thread_start_def hang_up_def failing_def tick_def new_socket_def Let_def SHOW_4
    queued_def delivered_def
  show ?thesis
  proof (cases b2)
    case True
    show ?thesis
    proof (cases b3)
      case b3: True
      show ?thesis
        using l p li ne f True b3
        by (cases b1) (simp_all add: defs listen_for_new_instances.simps)
    next
      case b3: False
      show ?thesis
        using l p li ne f True b3
        by (cases b1) (simp_all add: defs listen_for_new_instances.simps)
    qed
  next
    case False
    show ?thesis
    proof (cases b3)
      case b3: True
      show ?thesis
        using l p li ne f False b3
        by (cases b1) (simp_all add: defs listen_for_new_instances.simps)
    next
      case b3: False
      show ?thesis
        using l p li ne f False b3
        by (cases b1) (simp_all add: defs listen_for_new_instances.simps)
    qed
  qed
qed

text \<open>
  Claim C5. Process A has acquired the lock and started its listener, which waits in
  \<^verbatim>\<open>accept\<close>. Process B's \<^verbatim>\<open>acquire\<close> then returns \<^verbatim>\<open>False\<close>, and B calls
  \<^verbatim>\<open>notify_existing_instance\<close>: it connects to 127.0.0.1 port 47200, where A's lock socket
  listens, and what arrives there is one connection holding exactly the four bytes
  \<^verbatim>\<open>SHOW\<close>. A's listener takes it and starts the show-calendar callback exactly once,
  then waits in \<^verbatim>\<open>accept\<close> again; and this is so too when the listener runs in between
  the calls that B makes. (No call fails for a reason of the operating system's own:
  \<open>faults os = {}\<close>.)
\<close>

theorem show_signal_end_to_end:
  assumes "faults os = {}"
    and "acquire_single_instance_lock gA os = (Inr True, gA', os1)"
    and "LOCK_SOCKET gB = None"
  shows "listen_for_new_instances gA' At_accept os1 = (At_accept, [], os1)
       \<and> (\<exists>os2 os3 os4 e.
             acquire_single_instance_lock gB os1 = (Inr False, gB, os2)
           \<and> notify_existing_instance os2 = (Inr (), os3)
           \<and> lock_address = (''127.0.0.1'', 47200)
           \<and> port_table os3 lock_address = LOCK_SOCKET gA'
           \<and> queued gA' os3 [(e, ''SHOW'')] \<and> length ''SHOW'' = 4
           \<and> listen_for_new_instances gA' At_accept os3
               = (At_accept, [Target_show_calendar], os4)
           \<and> queued gA' os4 []
           \<and> (\<forall>b1 b2 b3. \<exists>pc' ts' os' os''.
                  notify_interleaved gA' b1 b2 b3 (At_accept, [], os2) = (Inr (), pc', ts', os')
                \<and> listener_turn True gA' (pc', ts', os')
                    = (At_accept, [Target_show_calendar], os'')))"
proof -
  note a = acquire_true[OF assms(2)]
  note q1 = acquire_queued[OF assms(2)]
  have f1: "faults os1 = {}"
    using a(2) assms(1) by simp
  have wait: "listen_for_new_instances gA' At_accept os1 = (At_accept, [], os1)"
    using try_queued_empty[OF q1(1) f1]
    by (simp add: listen_for_new_instances.simps[of gA' At_accept os1])
  define os2 where "os2 = os1\<lparr>next_sock := Suc (next_sock os1),
      sockets := (sockets os1)(next_sock os1 := None), clock := Suc (Suc (Suc (clock os1)))\<rparr>"
  have p1: "port_table os1 lock_address = Some (next_sock os)"
    using q1(2) a(3) by simp
  have b: "acquire_single_instance_lock gB os1 = (Inr False, gB, os2)"
    using acquire_busy_false[OF p1 f1, of gB] assms(3) by (simp add: os2_def)
  have q2: "queued gA' os2 []"
    unfolding os2_def using q1(1) a(3) a(4) by (intro queued_later[where l = "next_sock os"]) simp_all
  have p2: "port_table os2 lock_address = Some (next_sock os)"
    using p1 by (simp add: os2_def)
  have n2: "next_sock os < next_sock os2"
    using a(4) by (simp add: os2_def)
  have f2: "faults os2 = {}"
    using f1 by (simp add: os2_def)
  have il: "\<exists>pc' ts' os' os''.
        notify_interleaved gA' b1 b2 b3 (At_accept, [], os2) = (Inr (), pc', ts', os')
      \<and> listener_turn True gA' (pc', ts', os') = (At_accept, [Target_show_calendar], os'')"
    for b1 b2 b3
    using notify_interleaved_once[OF q2 a(3) p2 n2 f2, of b1 b2 b3] by blast
  from notify_delivers[OF q2 a(3) p2 n2 f2] obtain os3 where
    n: "notify_existing_instance os2 = (Inr (), os3)"
    and q3: "queued gA' os3 [(Suc (next_sock os2), SHOW)]" and f3: "faults os3 = {}"
    and p3: "port_table os3 = port_table os2"
    by (elim exE conjE) (rule that; assumption)
  from listen_queued[OF q3 f3] obtain os4 where
    l: "listen_for_new_instances gA' At_accept os3
          = (At_accept, callbacks (map snd [(Suc (next_sock os2), SHOW)]), os4)"
    and q4: "queued gA' os4 []"
    by (elim exE conjE) (rule that; assumption)
  have cb: "callbacks (map snd [(Suc (next_sock os2), SHOW)]) = [Target_show_calendar]"
    by (simp add: callbacks_def)
  have addr: "lock_address = (''127.0.0.1'', 47200)"
    by (simp add: lock_address_def LOCK_PORT_def)
  have "port_table os3 lock_address = LOCK_SOCKET gA'"
    using p3 p2 a(3) by simp
  with wait b n q3 q4 l cb addr il show ?thesis
    by (auto simp add: SHOW_def)
qed

theorem show_signal_end_to_end_witness:
  "faults fresh_os = {}
   \<and> acquire_single_instance_lock initial_globals fresh_os
       = (Inr True, \<lparr>LOCK_SOCKET = Some 0\<rparr>, listening_os)
   \<and> LOCK_SOCKET initial_globals = None
   \<and> listen_for_new_instances \<lparr>LOCK_SOCKET = Some 0\<rparr> At_accept listening_os
       = (At_accept, [], listening_os)
   \<and> fst (acquire_single_instance_lock initial_globals listening_os) = Inr False
   \<and> fst (notify_existing_instance
            (snd (snd (acquire_single_instance_lock initial_globals listening_os)))) = Inr ()
   \<and> fst (snd (listen_for_new_instances \<lparr>LOCK_SOCKET = Some 0\<rparr> At_accept
         (snd (notify_existing_instance
            (snd (snd (acquire_single_instance_lock initial_globals listening_os)))))))
       = [Target_show_calendar]"
proof -
  have f: "faults fresh_os = {}"
    by (simp add: fresh_os_def)
  have n: "LOCK_SOCKET initial_globals = None"
    by (simp add: initial_globals_def)
  have a: "acquire_single_instance_lock initial_globals fresh_os
       = (Inr True, \<lparr>LOCK_SOCKET = Some 0\<rparr>, listening_os)"
    using acquire_fresh by (simp add: listening_os_def)
  from show_signal_end_to_end[OF f a n]
  obtain os2 os3 os4 where
    "listen_for_new_instances \<lparr>LOCK_SOCKET = Some 0\<rparr> At_accept listening_os
       = (At_accept, [], listening_os)"
    "acquire_single_instance_lock initial_globals listening_os = (Inr False, initial_globals, os2)"
    "notify_existing_instance os2 = (Inr (), os3)"
    "listen_for_new_instances \<lparr>LOCK_SOCKET = Some 0\<rparr> At_accept os3
       = (At_accept, [Target_show_calendar], os4)"
    by (elim exE conjE) (rule that; assumption)
  then show ?thesis
    using f n a by simp
qed

section \<open>One calendar window per process\<close>

lemma show_calendar_step_lock:
  assumes "show_calendar_step t p s = Some (p', s')"
  shows "threads s' = threads s"
    and "in_block p \<Longrightarrow> window_lock s' = None \<and> \<not> in_block p'"
    and "\<not> in_block p \<Longrightarrow> in_block p' \<Longrightarrow> window_lock s = None \<and> window_lock s' = Some t"
    and "\<not> in_block p \<Longrightarrow> \<not> in_block p' \<Longrightarrow> window_lock s' = window_lock s"
  using assms
  by (auto simp add: show_calendar_step_def in_block_def split: pc.splits if_splits option.splits)

lemma lock_inv_step:
  assumes "lock_inv s" "step a s = Some s'"
  shows "lock_inv s'"
proof (cases a)
  case Open_request
  with assms(2) have s': "s' = s\<lparr>threads := threads s @ [Enter_check]\<rparr>"
    by (simp add: step_def)
  show ?thesis
    using assms(1) unfolding s' lock_inv_def
    by (auto simp add: nth_append in_block_def less_Suc_eq)
next
  case (Run t)
  with assms(2) obtain p' s1 where t: "t < length (threads s)"
    and ts: "show_calendar_step t (threads s ! t) s = Some (p', s1)"
    and s': "s' = s1\<lparr>threads := (threads s)[t := p']\<rparr>"
    by (auto simp add: step_def split: if_splits option.splits)
  note l = show_calendar_step_lock[OF ts]
  show ?thesis
  proof (cases "in_block (threads s ! t)")
    case True
    then have h: "window_lock s = Some t"
      using assms(1) t by (simp add: lock_inv_def)
    have "window_lock s1 = None" "\<not> in_block p'"
      using l(2)[OF True] by simp_all
    then show ?thesis
      using assms(1) t h unfolding s' lock_inv_def
      by (auto simp add: nth_list_update)
  next
    case False
    show ?thesis
    proof (cases "in_block p'")
      case True
      have "window_lock s = None" "window_lock s1 = Some t"
        using l(3)[OF False True] by simp_all
      then show ?thesis
        using assms(1) t True unfolding s' lock_inv_def
        by (auto simp add: nth_list_update)
    next
      case np: False
      have "window_lock s1 = window_lock s"
        using l(4)[OF False np] .
      then show ?thesis
        using assms(1) t False np unfolding s' lock_inv_def
        by (auto simp add: nth_list_update)
    qed
  qed
next
  case (Close_window w)
  with assms(2) obtain t where
    f: "find (\<lambda>t. threads s ! t = Mainloop w) [0 ..< length (threads s)] = Some t"
    and s': "s' = s\<lparr>threads := (threads s)[t := Enter_clear w]\<rparr>"
    by (auto simp add: step_def split: option.splits)
  from f have t: "t < length (threads s)" "threads s ! t = Mainloop w"
    by (auto simp add: find_Some_iff)
  show ?thesis
    using assms(1) t unfolding s' lock_inv_def
    by (auto simp add: nth_list_update in_block_def)
qed

lemma lock_inv_steps:
  assumes "lock_inv s" "steps as s = Some s'"
  shows "lock_inv s'"
  using assms
proof (induction as arbitrary: s)
  case Nil
  then show ?case by simp
next
  case (Cons a as)
  from Cons.prems(2) obtain s1 where a: "step a s = Some s1" and r: "steps as s1 = Some s'"
    by (auto split: option.splits)
  from Cons.IH[OF lock_inv_step[OF Cons.prems(1) a] r] show ?case .
qed

lemma lock_inv_reachable:
  assumes "steps as initial_gui = Some s"
  shows "lock_inv s"
  using lock_inv_steps[OF _ assms] by (simp add: lock_inv_def initial_gui_def)

text \<open>
  A request made while a window is open and registered, and no other request is under
  way, raises that window and creates none.
\<close>

lemma open_again_raises:
  assumes "settled s w"
  shows "steps [Open_request, Run (length (threads s)), Run (length (threads s))] s
           = Some (s\<lparr>raised := raised s @ [w], threads := threads s @ [Returned]\<rparr>)"
  using assms
  by (simp add: settled_def step_def show_calendar_step_def nth_append)

text \<open>
  Claim C2 says that at most one calendar window exists at any time, because the check of
  \<^verbatim>\<open>calendar_window\<close> and its assignment are made under \<^verbatim>\<open>window_lock\<close>. The code takes
  the lock twice, once for the check (lines 544-552) and once for the assignment (lines
  572-573), and creates the window in between, outside the lock. Two requests made in
  quick succession can therefore both find \<^verbatim>\<open>calendar_window\<close> empty: each thread passes
  the check, each creates a window, and two windows exist, both in their event loops.
\<close>

lemma one_window_invariant_fails:
  "\<not> (\<forall>as s. steps as initial_gui = Some s \<longrightarrow> length (windows s) \<le> 1)"
proof
  assume a: "\<forall>as s. steps as initial_gui = Some s \<longrightarrow> length (windows s) \<le> 1"
  have "steps [Open_request, Open_request, Run 0, Run 0, Run 1, Run 1, Run 0, Run 1] initial_gui
      = Some \<lparr>calendar_window = None, window_lock = None, windows = [0, 1], next_window = 2,
              raised = [], threads = [Enter_store 0, Enter_store 1]\<rparr>"
    by (simp add: step_def show_calendar_step_def initial_gui_def)
  with a have "length ([0, 1] :: nat list) \<le> 1"
    by fastforce
  then show False
    by simp
qed

theorem two_requests_two_windows:
  "steps [Open_request, Open_request, Run 0, Run 0, Run 1, Run 1, Run 0, Run 1,
          Run 0, Run 0, Run 1, Run 1] initial_gui
     = Some \<lparr>calendar_window = Some 1, window_lock = None, windows = [0, 1], next_window = 2,
             raised = [], threads = [Mainloop 0, Mainloop 1]\<rparr>"
  by (simp add: step_def show_calendar_step_def initial_gui_def)

end
